theory Spec2Isabelle
  imports Main
begin

section \<open>Values, errors and the iteration protocol\<close>

text \<open>
  The JavaScript values the library handles. Numbers are modelled as unbounded integers
  (the library only counts and compares them; fractions and NaN are left out).
  A pair produced by \<open>zip\<close> is the two-element array \<open>Array [a, b]\<close>.
\<close>

datatype val = Undefined | Num int | Boolean bool | Array "val list"

text \<open>The exceptions of \<open>lazy.js\<close>: the two built-in ones and its own class.\<close>

datatype error = TypeError | RangeError | InfiniteSequenceError

text \<open>ToBoolean, as applied by \<open>if (...)\<close> and \<open>&&\<close> to what a predicate returns.\<close>

fun truthy :: "val \<Rightarrow> bool" where
  "truthy Undefined = False"
| "truthy (Num n) = (n \<noteq> 0)"
| "truthy (Boolean b) = b"
| "truthy (Array xs) = True"

text \<open>
  What one call of a cursor's \<open>next()\<close> does: it hands out a value
  (\<open>{value: v, done: false}\<close>), reports exhaustion (\<open>{done: true}\<close>) or throws.
\<close>

datatype step = Yield val | Done | Throw error

text \<open>
  A cursor is a state of type \<open>'s\<close>; \<open>next()\<close> maps the cursor's state and the state
  \<open>'w\<close> of the rest of the program (whatever callbacks and producers may read and write)
  to the outcome and the two new states. \<open>None\<close> means that the call does not return.
\<close>

type_synonym ('s, 'w) advance = "'s \<Rightarrow> 'w \<Rightarrow> (step \<times> 's \<times> 'w) option"

text \<open>
  A generator object made from one of the library's \<open>function*\<close> bodies is either
  suspended, holding its local variables, or completed; a completed generator answers
  every further \<open>next()\<close> with \<open>{done: true}\<close> and runs no code.
\<close>

datatype 'l gen = Suspended 'l | Completed

text \<open>
  A callback argument. \<open>typeof cb !== 'function'\<close> distinguishes the two cases; a
  function receives its argument list, may change the program state, and is taken to
  return (callbacks that throw or do not return are left out). The \<open>ctx\<close> argument of
  \<open>cb.call(ctx, ...)\<close> only sets the callback's \<open>this\<close> and is left out.
\<close>

datatype 'w arg = Fun "val list \<Rightarrow> 'w \<Rightarrow> val \<times> 'w" | NonFun val

section \<open>The class \<open>Lazy\<close>\<close>

text \<open>
  \<open>class Lazy\<close>: the property \<open>[Symbol.iterator]\<close> is a generator function, given here by
  the state \<open>start\<close> of the generator object each call of it returns and by the
  \<open>advance\<close> function of these objects; \<open>infinite\<close> is the tag.
\<close>

record ('s, 'w) Lazy =
  start :: 's
  advance :: "('s, 'w) advance"
  infinite :: bool

text \<open>
  \<open>constructor(iterator, infinite = false)\<close>: the default applies when the argument is
  omitted or \<open>undefined\<close> (\<open>None\<close>). The library always passes a generator function, so
  the constructor's \<open>TypeError\<close> is not reachable from the operations below.
\<close>

definition new_Lazy :: "'s \<Rightarrow> ('s, 'w) advance \<Rightarrow> bool option \<Rightarrow> ('s, 'w) Lazy" where
  "new_Lazy s nxt tag =
     \<lparr>start = s, advance = nxt, infinite = (case tag of None \<Rightarrow> False | Some b \<Rightarrow> b)\<rparr>"

subsection \<open>\<open>naturals\<close>\<close>

text \<open>\<open>let i = n; while (true) { yield i++; }\<close>\<close>

definition naturals_next :: "(int, 'w) advance" where
  "naturals_next i w = Some (Yield (Num i), i + 1, w)"

text \<open>
  \<open>static naturals(n = 0)\<close>: the default applies to an omitted or \<open>undefined\<close>
  argument; a \<open>TypeError\<close> for any other argument that is not a number, a
  \<open>RangeError\<close> for a negative number.
\<close>

definition naturals :: "val \<Rightarrow> error + (int, 'w) Lazy" where
  "naturals n =
     (case n of
        Undefined \<Rightarrow> Inr (new_Lazy 0 naturals_next (Some True))
      | Num k \<Rightarrow> if k < 0 then Inl RangeError else Inr (new_Lazy k naturals_next (Some True))
      | _ \<Rightarrow> Inl TypeError)"

subsection \<open>\<open>take\<close> and \<open>drop\<close>\<close>

text \<open>
  \<open>var i = 0; for (let k of orig) { if (i++ < n) { yield k; } else { return; } }\<close>

  Each resumption asks the origin's cursor for one element and only then tests the
  counter. The argument \<open>n\<close> is not checked; it is taken to be an integer.
\<close>

definition take_next ::
  "int \<Rightarrow> ('s, 'w) advance \<Rightarrow> (nat \<times> 's) gen \<Rightarrow> 'w \<Rightarrow> (step \<times> (nat \<times> 's) gen \<times> 'w) option" where
  "take_next n nxt g w =
     (case g of
        Completed \<Rightarrow> Some (Done, Completed, w)
      | Suspended (i, s) \<Rightarrow>
          (case nxt s w of
             None \<Rightarrow> None
           | Some (Yield k, s', w') \<Rightarrow>
               if int i < n then Some (Yield k, Suspended (i + 1, s'), w')
               else Some (Done, Completed, w')
           | Some (Done, s', w') \<Rightarrow> Some (Done, Completed, w')
           | Some (Throw e, s', w') \<Rightarrow> Some (Throw e, Completed, w')))"

definition take_lazy :: "int \<Rightarrow> ('s, 'w) Lazy \<Rightarrow> ((nat \<times> 's) gen, 'w) Lazy" where
  "take_lazy n orig =
     new_Lazy (Suspended (0, start orig)) (take_next n (advance orig)) (Some False)"

text \<open>
  \<open>var i = 0; for (let k of orig) { if (i++ < n) { continue; } else { yield k; } }\<close>
\<close>

partial_function (option) drop_next ::
  "int \<Rightarrow> ('s, 'w) advance \<Rightarrow> (nat \<times> 's) gen \<Rightarrow> 'w \<Rightarrow> (step \<times> (nat \<times> 's) gen \<times> 'w) option" where
  "drop_next n nxt g w =
     (case g of
        Completed \<Rightarrow> Some (Done, Completed, w)
      | Suspended (i, s) \<Rightarrow>
          (case nxt s w of
             None \<Rightarrow> None
           | Some (Yield k, s', w') \<Rightarrow>
               if int i < n then drop_next n nxt (Suspended (i + 1, s')) w'
               else Some (Yield k, Suspended (i + 1, s'), w')
           | Some (Done, s', w') \<Rightarrow> Some (Done, Completed, w')
           | Some (Throw e, s', w') \<Rightarrow> Some (Throw e, Completed, w')))"

definition drop_lazy :: "int \<Rightarrow> ('s, 'w) Lazy \<Rightarrow> ((nat \<times> 's) gen, 'w) Lazy" where
  "drop_lazy n orig =
     new_Lazy (Suspended (0, start orig)) (drop_next n (advance orig)) (Some (infinite orig))"

subsection \<open>\<open>takeWhile\<close> and \<open>dropWhile\<close>\<close>

text \<open>
  \<open>var take = true;
  for (let k of orig) { take = take && pred(k); if (take) { yield k; } else { return; } }\<close>

  \<open>take && pred(k)\<close> evaluates \<open>pred(k)\<close> only while the flag is true. The flag is a
  local variable of the generator and so part of the suspended state.
\<close>

definition takeWhile_next ::
  "(val list \<Rightarrow> 'w \<Rightarrow> val \<times> 'w) \<Rightarrow> ('s, 'w) advance \<Rightarrow> (bool \<times> 's) gen \<Rightarrow> 'w
     \<Rightarrow> (step \<times> (bool \<times> 's) gen \<times> 'w) option" where
  "takeWhile_next pred nxt g w =
     (case g of
        Completed \<Rightarrow> Some (Done, Completed, w)
      | Suspended (taking, s) \<Rightarrow>
          (case nxt s w of
             None \<Rightarrow> None
           | Some (Yield k, s', w') \<Rightarrow>
               if taking then
                 (case pred [k] w' of (t, w'') \<Rightarrow>
                    if truthy t then Some (Yield k, Suspended (True, s'), w'')
                    else Some (Done, Completed, w''))
               else Some (Done, Completed, w')
           | Some (Done, s', w') \<Rightarrow> Some (Done, Completed, w')
           | Some (Throw e, s', w') \<Rightarrow> Some (Throw e, Completed, w')))"

definition takeWhile_lazy :: "'w arg \<Rightarrow> ('s, 'w) Lazy \<Rightarrow> error + ((bool \<times> 's) gen, 'w) Lazy" where
  "takeWhile_lazy pred orig =
     (case pred of
        NonFun v \<Rightarrow> Inl TypeError
      | Fun p \<Rightarrow>
          Inr (new_Lazy (Suspended (True, start orig)) (takeWhile_next p (advance orig))
                 (Some False)))"

text \<open>
  \<open>var drop = true;
  for (let k of orig) { drop = drop && pred(k); if (drop) { continue; } else { yield k; } }\<close>

  Once the flag is false, \<open>drop && pred(k)\<close> no longer evaluates \<open>pred(k)\<close>.
\<close>

partial_function (option) dropWhile_next ::
  "(val list \<Rightarrow> 'w \<Rightarrow> val \<times> 'w) \<Rightarrow> ('s, 'w) advance \<Rightarrow> (bool \<times> 's) gen \<Rightarrow> 'w
     \<Rightarrow> (step \<times> (bool \<times> 's) gen \<times> 'w) option" where
  "dropWhile_next pred nxt g w =
     (case g of
        Completed \<Rightarrow> Some (Done, Completed, w)
      | Suspended (dropping, s) \<Rightarrow>
          (case nxt s w of
             None \<Rightarrow> None
           | Some (Yield k, s', w') \<Rightarrow>
               if dropping then
                 (case pred [k] w' of (t, w'') \<Rightarrow>
                    if truthy t then dropWhile_next pred nxt (Suspended (True, s')) w''
                    else Some (Yield k, Suspended (False, s'), w''))
               else Some (Yield k, Suspended (False, s'), w')
           | Some (Done, s', w') \<Rightarrow> Some (Done, Completed, w')
           | Some (Throw e, s', w') \<Rightarrow> Some (Throw e, Completed, w')))"

definition dropWhile_lazy :: "'w arg \<Rightarrow> ('s, 'w) Lazy \<Rightarrow> error + ((bool \<times> 's) gen, 'w) Lazy" where
  "dropWhile_lazy pred orig =
     (case pred of
        NonFun v \<Rightarrow> Inl TypeError
      | Fun p \<Rightarrow>
          Inr (new_Lazy (Suspended (True, start orig)) (dropWhile_next p (advance orig))
                 (Some (infinite orig))))"

subsection \<open>\<open>map\<close> and \<open>filter\<close>\<close>

text \<open>\<open>for (let k of orig) { yield cb.call(ctx, k); }\<close>\<close>

definition map_next ::
  "(val list \<Rightarrow> 'w \<Rightarrow> val \<times> 'w) \<Rightarrow> ('s, 'w) advance \<Rightarrow> 's gen \<Rightarrow> 'w \<Rightarrow> (step \<times> 's gen \<times> 'w) option" where
  "map_next cb nxt g w =
     (case g of
        Completed \<Rightarrow> Some (Done, Completed, w)
      | Suspended s \<Rightarrow>
          (case nxt s w of
             None \<Rightarrow> None
           | Some (Yield k, s', w') \<Rightarrow>
               (case cb [k] w' of (v, w'') \<Rightarrow> Some (Yield v, Suspended s', w''))
           | Some (Done, s', w') \<Rightarrow> Some (Done, Completed, w')
           | Some (Throw e, s', w') \<Rightarrow> Some (Throw e, Completed, w')))"

definition map_lazy :: "'w arg \<Rightarrow> ('s, 'w) Lazy \<Rightarrow> error + ('s gen, 'w) Lazy" where
  "map_lazy cb orig =
     (case cb of
        NonFun v \<Rightarrow> Inl TypeError
      | Fun f \<Rightarrow>
          Inr (new_Lazy (Suspended (start orig)) (map_next f (advance orig))
                 (Some (infinite orig))))"

text \<open>\<open>for (let k of orig) { if (pred.call(ctx, k)) { yield k; } }\<close>\<close>

partial_function (option) filter_next ::
  "(val list \<Rightarrow> 'w \<Rightarrow> val \<times> 'w) \<Rightarrow> ('s, 'w) advance \<Rightarrow> 's gen \<Rightarrow> 'w \<Rightarrow> (step \<times> 's gen \<times> 'w) option" where
  "filter_next pred nxt g w =
     (case g of
        Completed \<Rightarrow> Some (Done, Completed, w)
      | Suspended s \<Rightarrow>
          (case nxt s w of
             None \<Rightarrow> None
           | Some (Yield k, s', w') \<Rightarrow>
               (case pred [k] w' of (t, w'') \<Rightarrow>
                  if truthy t then Some (Yield k, Suspended s', w'')
                  else filter_next pred nxt (Suspended s') w'')
           | Some (Done, s', w') \<Rightarrow> Some (Done, Completed, w')
           | Some (Throw e, s', w') \<Rightarrow> Some (Throw e, Completed, w')))"

definition filter_lazy :: "'w arg \<Rightarrow> ('s, 'w) Lazy \<Rightarrow> error + ('s gen, 'w) Lazy" where
  "filter_lazy pred orig =
     (case pred of
        NonFun v \<Rightarrow> Inl TypeError
      | Fun p \<Rightarrow>
          Inr (new_Lazy (Suspended (start orig)) (filter_next p (advance orig))
                 (Some (infinite orig))))"

subsection \<open>The second version of the module\<close>

text \<open>
  The repository holds a second version of the class (the text that follows \<open>test.js\<close> in
  the same file). It has no \<open>infinite\<close> tag, and its \<open>map\<close> and \<open>filter\<close> keep a counter,
  local to each generator object, that they pass to the callback:

  \<open>let index = 0; for (let k of orig) { yield cb.call(ctx, k, index++); }\<close>
\<close>

definition map_draft_next ::
  "(val list \<Rightarrow> 'w \<Rightarrow> val \<times> 'w) \<Rightarrow> ('s, 'w) advance \<Rightarrow> (nat \<times> 's) gen \<Rightarrow> 'w
     \<Rightarrow> (step \<times> (nat \<times> 's) gen \<times> 'w) option" where
  "map_draft_next cb nxt g w =
     (case g of
        Completed \<Rightarrow> Some (Done, Completed, w)
      | Suspended (index, s) \<Rightarrow>
          (case nxt s w of
             None \<Rightarrow> None
           | Some (Yield k, s', w') \<Rightarrow>
               (case cb [k, Num (int index)] w' of (v, w'') \<Rightarrow>
                  Some (Yield v, Suspended (index + 1, s'), w''))
           | Some (Done, s', w') \<Rightarrow> Some (Done, Completed, w')
           | Some (Throw e, s', w') \<Rightarrow> Some (Throw e, Completed, w')))"

text \<open>
  \<open>let index = 0; for (let k of orig) { if (pred.call(ctx, k, index++)) { yield k; } }\<close>
\<close>

partial_function (option) filter_draft_next ::
  "(val list \<Rightarrow> 'w \<Rightarrow> val \<times> 'w) \<Rightarrow> ('s, 'w) advance \<Rightarrow> (nat \<times> 's) gen \<Rightarrow> 'w
     \<Rightarrow> (step \<times> (nat \<times> 's) gen \<times> 'w) option" where
  "filter_draft_next pred nxt g w =
     (case g of
        Completed \<Rightarrow> Some (Done, Completed, w)
      | Suspended (index, s) \<Rightarrow>
          (case nxt s w of
             None \<Rightarrow> None
           | Some (Yield k, s', w') \<Rightarrow>
               (case pred [k, Num (int index)] w' of (t, w'') \<Rightarrow>
                  if truthy t then Some (Yield k, Suspended (index + 1, s'), w'')
                  else filter_draft_next pred nxt (Suspended (index + 1, s')) w'')
           | Some (Done, s', w') \<Rightarrow> Some (Done, Completed, w')
           | Some (Throw e, s', w') \<Rightarrow> Some (Throw e, Completed, w')))"

text \<open>
  The second version's \<open>map(cb, ctx)\<close> and \<open>filter(pred, ctx)\<close>; the tag, which that class
  does not have, is left at the record's default.
\<close>

definition map_draft :: "'w arg \<Rightarrow> ('s, 'w) Lazy \<Rightarrow> error + ((nat \<times> 's) gen, 'w) Lazy" where
  "map_draft cb orig =
     (case cb of
        NonFun v \<Rightarrow> Inl TypeError
      | Fun f \<Rightarrow> Inr (new_Lazy (Suspended (0, start orig)) (map_draft_next f (advance orig)) None))"

definition filter_draft :: "'w arg \<Rightarrow> ('s, 'w) Lazy \<Rightarrow> error + ((nat \<times> 's) gen, 'w) Lazy" where
  "filter_draft pred orig =
     (case pred of
        NonFun v \<Rightarrow> Inl TypeError
      | Fun p \<Rightarrow>
          Inr (new_Lazy (Suspended (0, start orig)) (filter_draft_next p (advance orig)) None))"

subsection \<open>\<open>head\<close>, \<open>tail\<close>, \<open>forEach\<close> and \<open>reduce\<close>\<close>

text \<open>
  \<open>get head() { let [ head ] = this.take(1); return head; }\<close>

  The array pattern has one element: it creates a cursor of \<open>this.take(1)\<close>, calls
  \<open>next()\<close> once, binds the value, or \<open>undefined\<close> when the cursor reports exhaustion,
  and closes the cursor.
\<close>

definition head :: "('s, 'w) Lazy \<Rightarrow> 'w \<Rightarrow> ((error + val) \<times> 'w) option" where
  "head this w =
     (let t = take_lazy 1 this in
      case advance t (start t) w of
        None \<Rightarrow> None
      | Some (Yield k, g, w') \<Rightarrow> Some (Inr k, w')
      | Some (Done, g, w') \<Rightarrow> Some (Inr Undefined, w')
      | Some (Throw e, g, w') \<Rightarrow> Some (Inl e, w'))"

text \<open>\<open>get tail() { return this.drop(1); }\<close>\<close>

definition tail :: "('s, 'w) Lazy \<Rightarrow> ((nat \<times> 's) gen, 'w) Lazy" where
  "tail this = drop_lazy 1 this"

text \<open>\<open>for (let k of this) { cb.call(ctx, k); }\<close>, where calling a non-function throws.\<close>

partial_function (option) forEach_loop ::
  "'w arg \<Rightarrow> ('s, 'w) advance \<Rightarrow> 's \<Rightarrow> 'w \<Rightarrow> ((error + val) \<times> 'w) option" where
  "forEach_loop cb nxt s w =
     (case nxt s w of
        None \<Rightarrow> None
      | Some (Yield k, s', w') \<Rightarrow>
          (case cb of
             NonFun v \<Rightarrow> Some (Inl TypeError, w')
           | Fun f \<Rightarrow> (case f [k] w' of (r, w'') \<Rightarrow> forEach_loop cb nxt s' w''))
      | Some (Done, s', w') \<Rightarrow> Some (Inr Undefined, w')
      | Some (Throw e, s', w') \<Rightarrow> Some (Inl e, w'))"

text \<open>
  \<open>forEach(cb, ctx) { if (this.infinite) { throw new InfiniteSequenceError(); } for ... }\<close>
\<close>

definition forEach :: "('s, 'w) Lazy \<Rightarrow> 'w arg \<Rightarrow> 'w \<Rightarrow> ((error + val) \<times> 'w) option" where
  "forEach this cb w =
     (if infinite this then Some (Inl InfiniteSequenceError, w)
      else forEach_loop cb (advance this) (start this) w)"

text \<open>\<open>for (let current of tail) { prev = f(prev, current); } return prev;\<close>\<close>

partial_function (option) reduce_loop ::
  "(val list \<Rightarrow> 'w \<Rightarrow> val \<times> 'w) \<Rightarrow> ('s, 'w) advance \<Rightarrow> val \<Rightarrow> 's \<Rightarrow> 'w
     \<Rightarrow> ((error + val) \<times> 'w) option" where
  "reduce_loop f nxt prev s w =
     (case nxt s w of
        None \<Rightarrow> None
      | Some (Yield current, s', w') \<Rightarrow>
          (case f [prev, current] w' of (r, w'') \<Rightarrow> reduce_loop f nxt r s' w'')
      | Some (Done, s', w') \<Rightarrow> Some (Inr prev, w')
      | Some (Throw e, s', w') \<Rightarrow> Some (Inl e, w'))"

text \<open>
  \<open>reduce(f)\<close>: the type check, then the tag check, then \<open>let prev = this.head;
  let tail = this.tail;\<close> and the loop over a fresh cursor of \<open>tail\<close>.
\<close>

definition reduce :: "('s, 'w) Lazy \<Rightarrow> 'w arg \<Rightarrow> 'w \<Rightarrow> ((error + val) \<times> 'w) option" where
  "reduce this f w =
     (case f of
        NonFun v \<Rightarrow> Some (Inl TypeError, w)
      | Fun g \<Rightarrow>
          if infinite this then Some (Inl InfiniteSequenceError, w)
          else
            (case head this w of
               None \<Rightarrow> None
             | Some (Inl e, w') \<Rightarrow> Some (Inl e, w')
             | Some (Inr prev, w') \<Rightarrow>
                 reduce_loop g (advance (tail this)) prev (start (tail this)) w'))"

section \<open>Iterables other than \<open>Lazy\<close> objects\<close>

text \<open>
  \<open>cons\<close>, \<open>zip\<close> and the function given to \<open>from\<close> deal with any value: a \<open>Lazy\<close>
  object, a native array, a generator object (as \<open>f(1, 1)\<close> in \<open>test.js\<close>, given by its
  state and its \<open>next()\<close>), or a value without the property \<open>[Symbol.iterator]\<close>.
\<close>

datatype ('s, 'w) iterable =
  Seq "('s, 'w) Lazy" | Arr "val list" | GenObj 's "('s, 'w) advance" | NonIterable val

text \<open>An iterator is a generator object or an array iterator (the array and a position).\<close>

datatype 's itstate = GenIt 's | ArrIt "val list" nat

text \<open>
  How a function taken from the property \<open>[Symbol.iterator]\<close> is called: as a method of
  the object it was read from (what \<open>for ... of\<close>, \<open>yield*\<close>, spread and array patterns
  do), or on its own, as in \<open>var sb = b[SI]; ... sb()\<close>, where \<open>this\<close> is \<open>undefined\<close>.
\<close>

datatype receiver = Method | Detached

text \<open>
  The property \<open>[Symbol.iterator]\<close> of a value, \<open>None\<close> for \<open>undefined\<close>.
  \<^item> A \<open>Lazy\<close> object holds the generator function given to its constructor; the
    generator functions of \<open>lazy.js\<close> refer to their origin through the variable \<open>orig\<close>
    and never read \<open>this\<close>.
  \<^item> An array inherits \<open>Array.prototype.values\<close>, which begins with ToObject(\<open>this\<close>),
    a \<open>TypeError\<close> when \<open>this\<close> is \<open>undefined\<close>.
  \<^item> A generator object inherits the function that returns \<open>this\<close>; called on its own it
    returns \<open>undefined\<close>, and the \<open>next()\<close> that follows is a \<open>TypeError\<close>.
\<close>

fun SI :: "('s, 'w) iterable \<Rightarrow> (receiver \<Rightarrow> error + 's itstate) option" where
  "SI (Seq L) = Some (\<lambda>r. Inr (GenIt (start L)))"
| "SI (Arr xs) = Some (\<lambda>r. case r of Method \<Rightarrow> Inr (ArrIt xs 0) | Detached \<Rightarrow> Inl TypeError)"
| "SI (GenObj s nxt) = Some (\<lambda>r. case r of Method \<Rightarrow> Inr (GenIt s) | Detached \<Rightarrow> Inl TypeError)"
| "SI (NonIterable v) = None"

text \<open>GetIterator, as performed by \<open>yield* b\<close> and \<open>[...b]\<close>.\<close>

definition get_iterator :: "('s, 'w) iterable \<Rightarrow> error + 's itstate" where
  "get_iterator b = (case SI b of None \<Rightarrow> Inl TypeError | Some m \<Rightarrow> m Method)"

text \<open>\<open>next()\<close> of a generator object whose states are advanced by \<open>nxt\<close>.\<close>

definition gen_it :: "('s, 'w) advance \<Rightarrow> ('s itstate, 'w) advance" where
  "gen_it nxt it w =
     (case it of
        GenIt s \<Rightarrow> (case nxt s w of None \<Rightarrow> None | Some (r, s', w') \<Rightarrow> Some (r, GenIt s', w'))
      | ArrIt xs i \<Rightarrow> Some (Throw TypeError, it, w))"

text \<open>\<open>next()\<close> of an iterator obtained from the iterable \<open>b\<close>.\<close>

fun it_next :: "('s, 'w) iterable \<Rightarrow> ('s itstate, 'w) advance" where
  "it_next b (ArrIt xs i) w =
     Some (if i < length xs then (Yield (xs ! i), ArrIt xs (i + 1), w) else (Done, ArrIt xs i, w))"
| "it_next (Seq L) (GenIt s) w = gen_it (advance L) (GenIt s) w"
| "it_next (GenObj s0 nxt) (GenIt s) w = gen_it nxt (GenIt s) w"
| "it_next b (GenIt s) w = Some (Throw TypeError, GenIt s, w)"

text \<open>
  One resumption of a generator inside \<open>yield* b\<close>: the delegate's result is passed on;
  \<open>st\<close> rebuilds the delegating generator's locals around the delegate's new state.
\<close>

definition yield_star ::
  "('s itstate, 'w) advance \<Rightarrow> ('s itstate \<Rightarrow> 'l) \<Rightarrow> 's itstate \<Rightarrow> 'w \<Rightarrow> (step \<times> 'l gen \<times> 'w) option" where
  "yield_star nxt st it w =
     (case nxt it w of
        None \<Rightarrow> None
      | Some (Yield k, it', w') \<Rightarrow> Some (Yield k, Suspended (st it'), w')
      | Some (Done, it', w') \<Rightarrow> Some (Done, Completed, w')
      | Some (Throw e, it', w') \<Rightarrow> Some (Throw e, Completed, w'))"

text \<open>The property \<open>infinite\<close> of a value: only \<open>Lazy\<close> objects have one.\<close>

fun infinite_prop :: "('s, 'w) iterable \<Rightarrow> bool option" where
  "infinite_prop (Seq L) = Some (infinite L)"
| "infinite_prop b = None"

subsection \<open>\<open>cons\<close>\<close>

text \<open>
  \<open>yield a; yield* b;\<close>: the generator is at its start, suspended at \<open>yield a\<close>, or inside
  \<open>yield* b\<close> with the iterator of \<open>b\<close>.
\<close>

datatype 's cons_state = ConsStart | ConsHead | ConsRest "'s itstate"

definition cons_next :: "val \<Rightarrow> ('s, 'w) iterable \<Rightarrow> ('s cons_state gen, 'w) advance" where
  "cons_next a b g w =
     (case g of
        Completed \<Rightarrow> Some (Done, Completed, w)
      | Suspended ConsStart \<Rightarrow> Some (Yield a, Suspended ConsHead, w)
      | Suspended ConsHead \<Rightarrow>
          (case get_iterator b of
             Inl e \<Rightarrow> Some (Throw e, Completed, w)
           | Inr it \<Rightarrow> yield_star (it_next b) ConsRest it w)
      | Suspended (ConsRest it) \<Rightarrow> yield_star (it_next b) ConsRest it w)"

text \<open>
  \<open>static cons(a, b, infinite)\<close>: \<open>if (b[SI] === undefined) throw new TypeError(...)\<close>;
  \<open>if (infinite == undefined && b instanceof Lazy) { infinite = b.infinite; }\<close>. The third
  argument is \<open>None\<close> when it is omitted or \<open>undefined\<close>.
\<close>

definition cons ::
  "val \<Rightarrow> ('s, 'w) iterable \<Rightarrow> bool option \<Rightarrow> error + ('s cons_state gen, 'w) Lazy" where
  "cons a b tag =
     (case SI b of
        None \<Rightarrow> Inl TypeError
      | Some m \<Rightarrow>
          Inr (new_Lazy (Suspended ConsStart) (cons_next a b)
                 (case (tag, b) of (None, Seq L) \<Rightarrow> Some (infinite L) | _ \<Rightarrow> tag)))"

subsection \<open>\<open>zip\<close>\<close>

text \<open>
  \<open>var ia = sa(); var ib = sb();
  while (true) { var na = ia.next(); var nb = ib.next();
                 if (na.done || nb.done) { return; } yield [ na.value, nb.value ]; }\<close>

  \<open>sa\<close> and \<open>sb\<close> were read from \<open>a[SI]\<close> and \<open>b[SI]\<close> when \<open>zip\<close> was called; the
  generator calls them on their own.
\<close>

datatype ('sa, 'sb) zip_state = ZipStart | ZipLoop "'sa itstate" "'sb itstate"

definition zip_loop ::
  "('sa, 'w) iterable \<Rightarrow> ('sb, 'w) iterable \<Rightarrow> 'sa itstate \<Rightarrow> 'sb itstate \<Rightarrow> 'w
     \<Rightarrow> (step \<times> ('sa, 'sb) zip_state gen \<times> 'w) option" where
  "zip_loop a b ia ib w =
     (case it_next a ia w of
        None \<Rightarrow> None
      | Some (Throw e, ia', w') \<Rightarrow> Some (Throw e, Completed, w')
      | Some (na, ia', w') \<Rightarrow>
          (case it_next b ib w' of
             None \<Rightarrow> None
           | Some (Throw e, ib', w'') \<Rightarrow> Some (Throw e, Completed, w'')
           | Some (nb, ib', w'') \<Rightarrow>
               (case (na, nb) of
                  (Yield x, Yield y) \<Rightarrow> Some (Yield (Array [x, y]), Suspended (ZipLoop ia' ib'), w'')
                | _ \<Rightarrow> Some (Done, Completed, w''))))"

definition zip_next ::
  "(receiver \<Rightarrow> error + 'sa itstate) \<Rightarrow> (receiver \<Rightarrow> error + 'sb itstate) \<Rightarrow>
   ('sa, 'w) iterable \<Rightarrow> ('sb, 'w) iterable \<Rightarrow> (('sa, 'sb) zip_state gen, 'w) advance" where
  "zip_next sa sb a b g w =
     (case g of
        Completed \<Rightarrow> Some (Done, Completed, w)
      | Suspended ZipStart \<Rightarrow>
          (case sa Detached of
             Inl e \<Rightarrow> Some (Throw e, Completed, w)
           | Inr ia \<Rightarrow>
               (case sb Detached of
                  Inl e \<Rightarrow> Some (Throw e, Completed, w)
                | Inr ib \<Rightarrow> zip_loop a b ia ib w))
      | Suspended (ZipLoop ia ib) \<Rightarrow> zip_loop a b ia ib w)"

text \<open>\<open>x && y\<close> on two tags that may be \<open>undefined\<close>.\<close>

definition js_and :: "bool option \<Rightarrow> bool option \<Rightarrow> bool option" where
  "js_and x y = (case x of Some True \<Rightarrow> y | _ \<Rightarrow> x)"

text \<open>
  \<open>static zip(a, b)\<close>: \<open>if (sa === undefined || sb === undefined) throw new TypeError()\<close>,
  then \<open>new Lazy(function*() {...}, a.infinite && b.infinite)\<close>.
\<close>

definition zip_lazy ::
  "('sa, 'w) iterable \<Rightarrow> ('sb, 'w) iterable \<Rightarrow> error + (('sa, 'sb) zip_state gen, 'w) Lazy" where
  "zip_lazy a b =
     (case SI a of
        None \<Rightarrow> Inl TypeError
      | Some sa \<Rightarrow>
          (case SI b of
             None \<Rightarrow> Inl TypeError
           | Some sb \<Rightarrow>
               Inr (new_Lazy (Suspended ZipStart) (zip_next sa sb a b)
                      (js_and (infinite_prop a) (infinite_prop b)))))"

subsection \<open>\<open>from\<close>\<close>

text \<open>
  The argument of \<open>from\<close>: a function of no arguments that returns a value to iterate
  over, or something that is not a function.
\<close>

datatype ('s, 'w) producer = Producer "unit \<Rightarrow> ('s, 'w) iterable" | NonProducer val

text \<open>\<open>yield* f();\<close>: \<open>f\<close> is called when the generator is first resumed.\<close>

datatype 's from_state = FromStart | FromRest "'s itstate"

definition from_next :: "(unit \<Rightarrow> ('s, 'w) iterable) \<Rightarrow> ('s from_state gen, 'w) advance" where
  "from_next f g w =
     (case g of
        Completed \<Rightarrow> Some (Done, Completed, w)
      | Suspended FromStart \<Rightarrow>
          (case get_iterator (f ()) of
             Inl e \<Rightarrow> Some (Throw e, Completed, w)
           | Inr it \<Rightarrow> yield_star (it_next (f ())) FromRest it w)
      | Suspended (FromRest it) \<Rightarrow> yield_star (it_next (f ())) FromRest it w)"

text \<open>\<open>static from(f, infinite = false)\<close>\<close>

definition from_lazy ::
  "('s, 'w) producer \<Rightarrow> bool option \<Rightarrow> error + ('s from_state gen, 'w) Lazy" where
  "from_lazy f tag =
     (case f of
        NonProducer v \<Rightarrow> Inl TypeError
      | Producer g \<Rightarrow> Inr (new_Lazy (Suspended FromStart) (from_next g) tag))"

section \<open>Consumers\<close>

text \<open>
  \<open>[ ...a ]\<close>: the elements of a fresh cursor, up to exhaustion, as an array.
\<close>

partial_function (option) spread_loop ::
  "('s, 'w) advance \<Rightarrow> val list \<Rightarrow> 's \<Rightarrow> 'w \<Rightarrow> ((error + val) \<times> 'w) option" where
  "spread_loop nxt acc s w =
     (case nxt s w of
        None \<Rightarrow> None
      | Some (Yield k, s', w') \<Rightarrow> spread_loop nxt (acc @ [k]) s' w'
      | Some (Done, s', w') \<Rightarrow> Some (Inr (Array acc), w')
      | Some (Throw e, s', w') \<Rightarrow> Some (Inl e, w'))"

definition spread :: "('s, 'w) Lazy \<Rightarrow> 'w \<Rightarrow> ((error + val) \<times> 'w) option" where
  "spread a w = spread_loop (advance a) [] (start a) w"

text \<open>
  A consumer that calls \<open>next()\<close> on a cursor at most \<open>m\<close> times and stops at the first
  answer that is not an element: the elements drawn, and the program state afterwards.
\<close>

fun draw :: "('s, 'w) advance \<Rightarrow> nat \<Rightarrow> 's \<Rightarrow> 'w \<Rightarrow> (val list \<times> 'w) option" where
  "draw nxt 0 s w = Some ([], w)"
| "draw nxt (Suc m) s w =
     (case nxt s w of
        None \<Rightarrow> None
      | Some (Yield k, s', w') \<Rightarrow>
          (case draw nxt m s' w' of
             None \<Rightarrow> None
           | Some (ks, w'') \<Rightarrow> Some (k # ks, w''))
      | Some (Done, s', w') \<Rightarrow> Some ([], w')
      | Some (Throw e, s', w') \<Rightarrow> Some ([], w'))"

text \<open>
  A cursor whose \<open>next()\<close> leaves the rest of the program as it found it.
\<close>

definition stateless :: "('s, 'w) advance \<Rightarrow> bool" where
  "stateless nxt = (\<forall>s w r s' w'. nxt s w = Some (r, s', w') \<longrightarrow> w' = w)"

section \<open>Observing a run\<close>

text \<open>
  To speak about what a run does besides computing its result, the program state is
  extended by a trace. \<open>traced nxt\<close> is the cursor \<open>nxt\<close> that records every completed
  call of its \<open>next()\<close>; \<open>logged f\<close> is the callback \<open>f\<close> that records every call, with the
  argument list it received and what it returned. \<open>pure g\<close> is a callback without effects.
\<close>

datatype event = Advance step | Call "val list" val

definition traced :: "('s, 'w) advance \<Rightarrow> ('s, event list \<times> 'w) advance" where
  "traced nxt s tw =
     (case tw of (tr, w) \<Rightarrow>
        (case nxt s w of
           None \<Rightarrow> None
         | Some (r, s', w') \<Rightarrow> Some (r, s', (tr @ [Advance r], w'))))"

definition logged ::
  "(val list \<Rightarrow> 'w \<Rightarrow> val \<times> 'w) \<Rightarrow> val list \<Rightarrow> event list \<times> 'w \<Rightarrow> val \<times> event list \<times> 'w" where
  "logged f args tw =
     (case tw of (tr, w) \<Rightarrow> (case f args w of (v, w') \<Rightarrow> (v, (tr @ [Call args v], w'))))"

definition pure :: "(val list \<Rightarrow> val) \<Rightarrow> val list \<Rightarrow> 'w \<Rightarrow> val \<times> 'w" where
  "pure g args w = (g args, w)"

text \<open>The sequence \<open>L\<close> with every \<open>next()\<close> of its cursors recorded.\<close>

definition observed :: "('s, 'w) Lazy \<Rightarrow> ('s, event list \<times> 'w) Lazy" where
  "observed L = \<lparr>start = start L, advance = traced (advance L), infinite = infinite L\<rparr>"

section \<open>The programs of \<open>test.js\<close>\<close>

text \<open>
  \<open>function* f(a, b) { yield* Lazy.cons(a, f(b, a + b)); }\<close>

  A generator object of \<open>f\<close> holds its arguments and, once started, the cursor of the
  \<open>cons\<close> sequence it delegates to. That cursor in turn holds, inside its \<open>yield* b\<close>,
  the generator object \<open>f(b, a + b)\<close>.
\<close>

datatype flocals = FStart int int | FDeleg int int "flocals gen cons_state gen"

text \<open>
  One resumption of the body of \<open>f\<close>, with \<open>self\<close> the \<open>next()\<close> of the generator objects
  of \<open>f\<close> itself and \<open>cs\<close> the state of the \<open>cons\<close> cursor.
\<close>

definition f_body ::
  "(flocals gen, 'w) advance \<Rightarrow> int \<Rightarrow> int \<Rightarrow> flocals gen cons_state gen \<Rightarrow> 'w
     \<Rightarrow> (step \<times> flocals gen \<times> 'w) option" where
  "f_body self a b cs w =
     (case cons (Num a) (GenObj (Suspended (FStart b (a + b))) self) None of
        Inl e \<Rightarrow> Some (Throw e, Completed, w)
      | Inr L \<Rightarrow>
          (case advance L cs w of
             None \<Rightarrow> None
           | Some (Yield k, cs', w') \<Rightarrow> Some (Yield k, Suspended (FDeleg a b cs'), w')
           | Some (Done, cs', w') \<Rightarrow> Some (Done, Completed, w')
           | Some (Throw e, cs', w') \<Rightarrow> Some (Throw e, Completed, w')))"

lemma f_body_cong [fundef_cong]:
  assumes "a = a'" "b = b'" "cs = cs'" "w = w'"
    and "\<And>s v. s \<in> \<Union> (set_cons_state ` set_gen cs') \<or>
           (cs' = Suspended ConsHead \<and> s = Suspended (FStart b' (a' + b')))
           \<Longrightarrow> self s v = self' s v"
  shows "f_body self a b cs w = f_body self' a' b' cs' w'"
proof (cases cs')
  case Completed
  with assms(1-4) show ?thesis
    by (simp add: f_body_def cons_def new_Lazy_def cons_next_def)
next
  case (Suspended l)
  show ?thesis
  proof (cases l)
    case ConsStart
    with Suspended assms(1-4) show ?thesis
      by (simp add: f_body_def cons_def new_Lazy_def cons_next_def)
  next
    case ConsHead
    with Suspended assms have "self (Suspended (FStart b' (a' + b'))) w' =
        self' (Suspended (FStart b' (a' + b'))) w'"
      by simp
    with Suspended ConsHead assms(1-4) show ?thesis
      by (simp add: f_body_def cons_def new_Lazy_def cons_next_def get_iterator_def
          yield_star_def gen_it_def)
  next
    case (ConsRest it)
    show ?thesis
    proof (cases it)
      case (GenIt s)
      with Suspended ConsRest assms have "self s w' = self' s w'"
        by simp
      with Suspended ConsRest GenIt assms(1-4) show ?thesis
        by (simp add: f_body_def cons_def new_Lazy_def cons_next_def yield_star_def gen_it_def)
    next
      case (ArrIt xs i)
      with Suspended ConsRest assms(1-4) show ?thesis
        by (simp add: f_body_def cons_def new_Lazy_def cons_next_def yield_star_def)
    qed
  qed
qed

lemma size_cons_state_sub:
  "x \<in> set_gen cs \<Longrightarrow> s \<in> set_cons_state x \<Longrightarrow> m s < Suc (size_gen (size_cons_state m) cs)"
proof (cases cs)
  case Completed
  assume "x \<in> set_gen cs"
  with Completed show ?thesis by simp
next
  case (Suspended l)
  assume "x \<in> set_gen cs" and s: "s \<in> set_cons_state x"
  with Suspended have x: "x = l" by simp
  show ?thesis
  proof (cases l)
    case (ConsRest it)
    with s x Suspended show ?thesis by (cases it) auto
  qed (use s x in auto)
qed

function f_next :: "(flocals gen, 'w) advance" where
  "f_next Completed w = Some (Done, Completed, w)"
| "f_next (Suspended (FStart a b)) w = f_body f_next a b (Suspended ConsStart) w"
| "f_next (Suspended (FDeleg a b cs)) w = f_body f_next a b cs w"
  by pat_completeness auto
termination
  by (relation "measure (\<lambda>(g, w). size_gen size g)")
    (auto dest: size_cons_state_sub [where m = "size_gen size"])

text \<open>\<open>function fibs() { ...; return Lazy.from(() => f(1, 1), true); }\<close>\<close>

definition fibs :: "error + (flocals gen from_state gen, 'w) Lazy" where
  "fibs = from_lazy (Producer (\<lambda>u. GenObj (Suspended (FStart 1 1)) f_next)) (Some True)"

text \<open>
  \<open>let sum = (a, b) => a + b\<close>, \<open>let isEven = n => n % 2 === 0\<close> and \<open>n => n < 4000000\<close>.
  On arguments that are not numbers JavaScript computes with NaN; the model answers
  \<open>undefined\<close> or \<open>false\<close> there, and the run of \<open>euler2\<close> never gets there.
\<close>

definition sum_js :: "val list \<Rightarrow> val" where
  "sum_js args = (case args of Num a # Num b # rest \<Rightarrow> Num (a + b) | _ \<Rightarrow> Undefined)"

definition isEven :: "val list \<Rightarrow> val" where
  "isEven args = (case args of Num n # rest \<Rightarrow> Boolean (n mod 2 = 0) | _ \<Rightarrow> Boolean False)"

definition below_4000000 :: "val list \<Rightarrow> val" where
  "below_4000000 args = (case args of Num n # rest \<Rightarrow> Boolean (n < 4000000) | _ \<Rightarrow> Boolean False)"

text \<open>
  \<open>let euler2 = fibs().takeWhile(n => n < 4000000).filter(isEven).reduce(sum);\<close>

  \<open>euler2_of\<close> is the chain of calls, applied to what \<open>fibs()\<close> returned.
\<close>

definition euler2_of :: "error + ('s, 'w) Lazy \<Rightarrow> 'w \<Rightarrow> ((error + val) \<times> 'w) option" where
  "euler2_of fs w =
     (case fs of
        Inl e \<Rightarrow> Some (Inl e, w)
      | Inr s1 \<Rightarrow>
          (case takeWhile_lazy (Fun (pure below_4000000)) s1 of
             Inl e \<Rightarrow> Some (Inl e, w)
           | Inr s2 \<Rightarrow>
               (case filter_lazy (Fun (pure isEven)) s2 of
                  Inl e \<Rightarrow> Some (Inl e, w)
                | Inr s3 \<Rightarrow> reduce s3 (Fun (pure sum_js)) w)))"

definition euler2 :: "'w \<Rightarrow> ((error + val) \<times> 'w) option" where
  "euler2 w = euler2_of fibs w"

subsection \<open>\<open>fibs2\<close>\<close>

text \<open>
  \<open>function f(a, b) { return Lazy.cons(a, Lazy.from(() => f(b, a + b)), true); }\<close>

  A cursor of the sequence \<open>f(a, b)\<close> is a cursor of \<open>cons\<close>; inside its \<open>yield* b\<close> it
  holds a cursor of \<open>from\<close>, which inside its \<open>yield* f()\<close> holds a cursor of the sequence
  \<open>f(b, a + b)\<close>. The type of these states refers to itself; \<open>F2\<close> closes it.
\<close>

datatype f2state = F2 "f2state from_state gen cons_state gen"

text \<open>
  \<open>next()\<close> of a cursor of \<open>Lazy.cons(a, Lazy.from(() => f(b, a + b)), true)\<close>, where
  \<open>self b (a + b)\<close> is the \<open>next()\<close> of the cursors of the sequence \<open>f(b, a + b)\<close>.
\<close>

definition f2_body ::
  "(int \<Rightarrow> int \<Rightarrow> (f2state, 'w) advance) \<Rightarrow> int \<Rightarrow> int \<Rightarrow> (f2state, 'w) advance" where
  "f2_body self a b st w =
     (case st of F2 cs \<Rightarrow>
        (case from_lazy
                (Producer (\<lambda>u. Seq \<lparr>start = F2 (Suspended ConsStart),
                                      advance = self b (a + b), infinite = True\<rparr>)) None of
           Inl e \<Rightarrow> Some (Throw e, st, w)
         | Inr D \<Rightarrow>
             (case cons (Num a) (Seq D) (Some True) of
                Inl e \<Rightarrow> Some (Throw e, st, w)
              | Inr L \<Rightarrow>
                  (case advance L cs w of
                     None \<Rightarrow> None
                   | Some (r, cs', w') \<Rightarrow> Some (r, F2 cs', w')))))"

lemma f2_body_cong [fundef_cong]:
  assumes "a = a'" "b = b'" "st = st'" "w = w'"
    and "\<And>s v.
           (\<exists>cs. st' = F2 cs \<and>
              (s \<in> \<Union> (set_from_state ` \<Union> (set_gen ` \<Union> (set_cons_state ` set_gen cs))) \<or>
               s = F2 (Suspended ConsStart) \<and>
                 (cs = Suspended ConsHead \<or>
                  cs = Suspended (ConsRest (GenIt (Suspended FromStart))))))
           \<Longrightarrow> self b' (a' + b') s v = self' b' (a' + b') s v"
  shows "f2_body self a b st w = f2_body self' a' b' st' w'"
proof -
  obtain cs where st: "st' = F2 cs" by (cases st')
  show ?thesis
  proof (cases cs)
    case Completed
    with assms(1-4) st show ?thesis
      by (simp add: f2_body_def from_lazy_def cons_def new_Lazy_def cons_next_def)
  next
    case (Suspended l)
    show ?thesis
    proof (cases l)
      case ConsStart
      with Suspended assms(1-4) st show ?thesis
        by (simp add: f2_body_def from_lazy_def cons_def new_Lazy_def cons_next_def)
    next
      case ConsHead
      with Suspended st assms(5) [of "F2 (Suspended ConsStart)" w']
      have "self b' (a' + b') (F2 (Suspended ConsStart)) w' =
          self' b' (a' + b') (F2 (Suspended ConsStart)) w'"
        by simp
      with Suspended ConsHead assms(1-4) st show ?thesis
        by (simp add: f2_body_def from_lazy_def cons_def new_Lazy_def cons_next_def
            get_iterator_def yield_star_def gen_it_def from_next_def)
    next
      case (ConsRest it)
      show ?thesis
      proof (cases it)
        case (ArrIt xs i)
        with Suspended ConsRest assms(1-4) st show ?thesis
          by (simp add: f2_body_def from_lazy_def cons_def new_Lazy_def cons_next_def
              yield_star_def)
      next
        case (GenIt g)
        show ?thesis
        proof (cases g)
          case Completed
          with Suspended ConsRest GenIt assms(1-4) st show ?thesis
            by (simp add: f2_body_def from_lazy_def cons_def new_Lazy_def cons_next_def
                yield_star_def gen_it_def from_next_def)
        next
          case fs: (Suspended fl)
          show ?thesis
          proof (cases fl)
            case FromStart
            with Suspended ConsRest GenIt fs st assms(5) [of "F2 (Suspended ConsStart)" w']
            have "self b' (a' + b') (F2 (Suspended ConsStart)) w' =
                self' b' (a' + b') (F2 (Suspended ConsStart)) w'"
              by simp
            with Suspended ConsRest GenIt fs FromStart assms(1-4) st show ?thesis
              by (simp add: f2_body_def from_lazy_def cons_def new_Lazy_def cons_next_def
                  get_iterator_def yield_star_def gen_it_def from_next_def)
          next
            case (FromRest it2)
            show ?thesis
            proof (cases it2)
              case (ArrIt xs i)
              with Suspended ConsRest GenIt fs FromRest assms(1-4) st show ?thesis
                by (simp add: f2_body_def from_lazy_def cons_def new_Lazy_def cons_next_def
                    yield_star_def gen_it_def from_next_def)
            next
              case g2: (GenIt s)
              with Suspended ConsRest GenIt fs FromRest st assms(5) [of s w']
              have "self b' (a' + b') s w' = self' b' (a' + b') s w'"
                by simp
              with Suspended ConsRest GenIt fs FromRest g2 assms(1-4) st show ?thesis
                by (simp add: f2_body_def from_lazy_def cons_def new_Lazy_def cons_next_def
                    yield_star_def gen_it_def from_next_def)
            qed
          qed
        qed
      qed
    qed
  qed
qed

lemma size_f2_sub:
  "x \<in> set_gen cs \<Longrightarrow> xa \<in> set_cons_state x \<Longrightarrow> xb \<in> set_gen xa \<Longrightarrow>
   s \<in> set_from_state xb \<Longrightarrow>
   m s < size_gen (size_cons_state (size_gen (size_from_state m))) cs"
proof -
  assume x: "x \<in> set_gen cs" and xa: "xa \<in> set_cons_state x" and xb: "xb \<in> set_gen xa"
    and s: "s \<in> set_from_state xb"
  from x have cs: "cs = Suspended x" by (cases cs) auto
  from xa obtain it where l: "x = ConsRest it" and it: "xa \<in> set_itstate it"
    by (cases x) auto
  from it have i: "it = GenIt xa" by (cases it) auto
  from xb have g: "xa = Suspended xb" by (cases xa) auto
  from s obtain it2 where fl: "xb = FromRest it2" and it2: "s \<in> set_itstate it2"
    by (cases xb) auto
  from it2 have "it2 = GenIt s" by (cases it2) auto
  with cs l i g fl show ?thesis by simp
qed

fun f2_measure :: "f2state \<Rightarrow> nat" where
  "f2_measure (F2 cs) = 2 * size (F2 cs) + (if cs = Suspended ConsStart then 0 else 1)"

lemma f2_measure_sub:
  assumes "x \<in> set_gen cs" "xa \<in> set_cons_state x" "xb \<in> set_gen xa" "s \<in> set_from_state xb"
  shows "f2_measure s < f2_measure (F2 cs)"
proof -
  from size_f2_sub [OF assms, of size]
  have "size s < size_gen (size_cons_state (size_gen (size_from_state size))) cs" .
  moreover have "f2_measure s \<le> 2 * size s + 1"
    by (cases s) simp
  ultimately show ?thesis by simp
qed

function f2_next :: "int \<Rightarrow> int \<Rightarrow> (f2state, 'w) advance" where
  "f2_next a b st w = f2_body f2_next a b st w"
  by pat_completeness auto
termination
  by (relation "measure (\<lambda>(a, b, st, w). f2_measure st)") (auto dest: f2_measure_sub)

text \<open>\<open>function fibs2() { ...; return f(1, 1); }\<close>: a \<open>cons\<close> sequence with tag true.\<close>

definition fibs2 :: "error + (f2state, 'w) Lazy" where
  "fibs2 = Inr \<lparr>start = F2 (Suspended ConsStart), advance = f2_next 1 1, infinite = True\<rparr>"

text \<open>
  The states a generator object of \<open>f(a, b)\<close> passes through: \<open>unfolded k a b\<close> is its
  state after \<open>k + 1\<close> elements, a chain of \<open>k + 1\<close> delegations, the innermost suspended
  at the \<open>yield a\<close> of its \<open>cons\<close>. \<open>fib_elem k a b\<close> is the element number \<open>k\<close> (from 0)
  of the sequence that starts with \<open>a\<close>, \<open>b\<close> and adds the last two.
\<close>

fun unfolded :: "nat \<Rightarrow> int \<Rightarrow> int \<Rightarrow> flocals" where
  "unfolded 0 a b = FDeleg a b (Suspended ConsHead)"
| "unfolded (Suc k) a b =
     FDeleg a b (Suspended (ConsRest (GenIt (Suspended (unfolded k b (a + b))))))"

fun fib_elem :: "nat \<Rightarrow> int \<Rightarrow> int \<Rightarrow> int" where
  "fib_elem 0 a b = a"
| "fib_elem (Suc k) a b = fib_elem k b (a + b)"

text \<open>The \<open>next()\<close> of the cursors of \<open>fibs()\<close>.\<close>

definition fibs_next :: "(flocals gen from_state gen, 'w) advance" where
  "fibs_next = from_next (\<lambda>u. GenObj (Suspended (FStart 1 1)) f_next)"

text \<open>The state of a cursor of \<open>fibs2()\<close> after \<open>k + 1\<close> elements.\<close>

fun unfolded2 :: "nat \<Rightarrow> f2state" where
  "unfolded2 0 = F2 (Suspended ConsHead)"
| "unfolded2 (Suc k) =
     F2 (Suspended (ConsRest (GenIt (Suspended (FromRest (GenIt (unfolded2 k)))))))"

section \<open>The shape of a trace\<close>

subsection \<open>The traces of \<open>takeWhile\<close> and \<open>dropWhile\<close>\<close>

text \<open>
  What a consumer of a cursor of \<open>takeWhile(p)\<close> over an observed origin, with \<open>p\<close>
  logged, may see: the trace \<open>tr\<close> and the elements \<open>ys\<close> it received. Each element \<open>x\<close>
  that the origin hands out is followed by one call of \<open>p\<close>, on \<open>x\<close> alone. After an
  answer that counts as true, \<open>x\<close> is received and the run goes on; an answer that
  counts as false is the last event of the trace. The end of the origin ends the trace.
\<close>

fun takeWhile_run :: "event list \<Rightarrow> val list \<Rightarrow> bool" where
  "takeWhile_run [] ys = (ys = [])"
| "takeWhile_run (Advance (Yield x) # Call args v # tr) ys =
     (args = [x] \<and>
      (if truthy v then (case ys of [] \<Rightarrow> False | y # ys' \<Rightarrow> y = x \<and> takeWhile_run tr ys')
       else tr = [] \<and> ys = []))"
| "takeWhile_run [Advance Done] ys = (ys = [])"
| "takeWhile_run [Advance (Throw e)] ys = (ys = [])"
| "takeWhile_run tr ys = False"

text \<open>
  For \<open>dropWhile(p)\<close>: as long as the answers count as true nothing is received; the
  element of the first other answer is received, and from then on (\<open>passed\<close>) every
  element the origin hands out is received and the trace has no further call.
\<close>

fun passed :: "event list \<Rightarrow> val list \<Rightarrow> bool" where
  "passed [] ys = (ys = [])"
| "passed (Advance (Yield x) # tr) ys =
     (case ys of [] \<Rightarrow> False | y # ys' \<Rightarrow> y = x \<and> passed tr ys')"
| "passed [Advance Done] ys = (ys = [])"
| "passed [Advance (Throw e)] ys = (ys = [])"
| "passed tr ys = False"

fun dropWhile_run :: "event list \<Rightarrow> val list \<Rightarrow> bool" where
  "dropWhile_run [] ys = (ys = [])"
| "dropWhile_run (Advance (Yield x) # Call args v # tr) ys =
     (args = [x] \<and>
      (if truthy v then dropWhile_run tr ys
       else (case ys of [] \<Rightarrow> False | y # ys' \<Rightarrow> y = x \<and> passed tr ys')))"
| "dropWhile_run [Advance Done] ys = (ys = [])"
| "dropWhile_run [Advance (Throw e)] ys = (ys = [])"
| "dropWhile_run tr ys = False"

text \<open>
  The calls in a trace, each with its argument list and its result, and the elements
  the origin handed out. \<open>tested_once\<close>: the calls are one-argument calls on the first
  elements the origin handed out, one call per element and in their order, and every
  call but the last returned something that counts as true.
\<close>

fun calls :: "event list \<Rightarrow> (val list \<times> val) list" where
  "calls [] = []"
| "calls (Call args v # tr) = (args, v) # calls tr"
| "calls (Advance r # tr) = calls tr"

fun consumed :: "event list \<Rightarrow> val list" where
  "consumed [] = []"
| "consumed (Advance (Yield x) # tr) = x # consumed tr"
| "consumed (e # tr) = consumed tr"

definition tested_once :: "event list \<Rightarrow> bool" where
  "tested_once tr =
     (map fst (calls tr) = map (\<lambda>x. [x]) (take (length (calls tr)) (consumed tr)) \<and>
      list_all (\<lambda>c. truthy (snd c)) (butlast (calls tr)))"

subsection \<open>The traces of \<open>map\<close> and \<open>filter\<close>\<close>

text \<open>
  What a consumer of a cursor of \<open>map(f)\<close> or \<open>filter(p)\<close> over an observed origin, with
  the callback logged, may see. Each element \<open>x\<close> that the origin hands out is followed
  by one call of the callback; \<open>i\<close> counts the elements handed out so far. With
  \<open>indexed\<close> the call's arguments are \<open>x\<close> and \<open>i\<close>, without it \<open>x\<close> alone.
  \<open>results\<close> are the values the calls returned, in order (what \<open>map\<close> hands out);
  \<open>kept\<close> are the first arguments of the calls that returned something that counts as
  true (what \<open>filter\<close> hands out).
\<close>

fun callback_run :: "bool \<Rightarrow> nat \<Rightarrow> event list \<Rightarrow> bool" where
  "callback_run indexed i [] = True"
| "callback_run indexed i (Advance (Yield x) # Call args v # tr) =
     (args = (if indexed then [x, Num (int i)] else [x]) \<and> callback_run indexed (Suc i) tr)"
| "callback_run indexed i [Advance Done] = True"
| "callback_run indexed i [Advance (Throw e)] = True"
| "callback_run indexed i tr = False"

definition results :: "event list \<Rightarrow> val list" where
  "results tr = map snd (calls tr)"

definition kept :: "event list \<Rightarrow> val list" where
  "kept tr = map (\<lambda>c. hd (fst c)) (filter (\<lambda>c. truthy (snd c)) (calls tr))"

section \<open>Properties\<close>

subsection \<open>The tag of \<open>take\<close> and \<open>takeWhile\<close>\<close>

text \<open>
  C5. Whatever the origin and its tag, whatever the count \<open>n\<close> and the predicate \<open>p\<close>:
  \<open>take(n)\<close> and \<open>takeWhile(p)\<close> return a sequence whose tag is false. The predicate is
  not consulted for it: this holds for a predicate that is true of every element, over
  \<open>naturals(0)\<close>, where the cursor of the result hands out an element at every one of
  any number \<open>m\<close> of calls.
\<close>

theorem take_takeWhile_tag_false:
  "infinite (take_lazy n this) = False \<and>
   (\<exists>t. takeWhile_lazy (Fun p) this = Inr t \<and> infinite t = False) \<and>
   (\<exists>N t. naturals (Num 0) = Inr N \<and> infinite N = True \<and>
      takeWhile_lazy (Fun (pure (\<lambda>args. Boolean True))) N = Inr t \<and> infinite t = False \<and>
      draw (advance t) m (start t) w = Some (map (\<lambda>i. Num (int i)) [0..<m], w))"
proof -
  have always:
    "draw (takeWhile_next (pure (\<lambda>args. Boolean True)) naturals_next) m (Suspended (True, i)) w =
      Some (map (\<lambda>j. Num (i + int j)) [0..<m], w)" for i :: int
  proof (induction m arbitrary: i)
    case 0
    show ?case by simp
  next
    case (Suc m)
    have step: "takeWhile_next (pure (\<lambda>args. Boolean True)) naturals_next (Suspended (True, i)) w =
        Some (Yield (Num i), Suspended (True, i + 1), w)"
      by (simp add: takeWhile_next_def naturals_next_def pure_def)
    have shift: "map (\<lambda>j. Num (i + int j)) [0..<Suc m] =
        Num i # map (\<lambda>j. Num (i + 1 + int j)) [0..<m]"
      by (simp add: upt_rec [of 0 "Suc m"] map_Suc_upt [symmetric] del: upt_Suc)
    from Suc.IH [of "i + 1"] show ?case
      unfolding shift by (auto simp add: step)
  qed
  show ?thesis
    using always [of 0]
    by (simp add: take_lazy_def takeWhile_lazy_def new_Lazy_def naturals_def)
qed

subsection \<open>The guard of \<open>forEach\<close> and \<open>reduce\<close>\<close>

lemmas run_simps =
  forEach_def forEach_loop.simps reduce_def reduce_loop.simps head_def tail_def
  take_lazy_def take_next_def drop_lazy_def drop_next.simps new_Lazy_def
  naturals_def naturals_next_def traced_def logged_def pure_def observed_def

text \<open>
  C1. On a sequence whose tag is true, \<open>forEach\<close> (with any argument) and \<open>reduce\<close>
  (with a function) throw \<open>InfiniteSequenceError\<close> and leave the program state as it
  was; when the sequence's cursors are observed, the trace does not grow: no \<open>next()\<close>
  was called. On \<open>naturals(0).take(5)\<close> both return: \<open>forEach\<close> calls the callback on
  0, 1, 2, 3, 4 and then meets the end; \<open>reduce\<close> reads 0 through \<open>head\<close>, starts a
  second cursor for \<open>tail\<close>, which passes over 0, and folds 1, 2, 3, 4 into it.
\<close>

theorem forEach_reduce_unbounded_guard:
  "(infinite this \<longrightarrow>
      forEach this cb w = Some (Inl InfiniteSequenceError, w) \<and>
      reduce this (Fun f) w = Some (Inl InfiniteSequenceError, w) \<and>
      forEach (observed this) cb' (tr, w) = Some (Inl InfiniteSequenceError, (tr, w)) \<and>
      reduce (observed this) (Fun f') (tr, w) = Some (Inl InfiniteSequenceError, (tr, w))) \<and>
   (\<exists>N. naturals (Num 0) = Inr N \<and> infinite N \<and>
      forEach (observed (take_lazy 5 N)) (Fun (logged (pure g))) ([], w) =
        Some (Inr Undefined,
          ([Advance (Yield (Num 0)), Call [Num 0] (g [Num 0]),
            Advance (Yield (Num 1)), Call [Num 1] (g [Num 1]),
            Advance (Yield (Num 2)), Call [Num 2] (g [Num 2]),
            Advance (Yield (Num 3)), Call [Num 3] (g [Num 3]),
            Advance (Yield (Num 4)), Call [Num 4] (g [Num 4]),
            Advance Done], w)) \<and>
      reduce (observed (take_lazy 5 N)) (Fun (logged (pure h))) ([], w) =
        Some (Inr (h [h [h [h [Num 0, Num 1], Num 2], Num 3], Num 4]),
          ([Advance (Yield (Num 0)),
            Advance (Yield (Num 0)),
            Advance (Yield (Num 1)), Call [Num 0, Num 1] (h [Num 0, Num 1]),
            Advance (Yield (Num 2)), Call [h [Num 0, Num 1], Num 2] (h [h [Num 0, Num 1], Num 2]),
            Advance (Yield (Num 3)),
            Call [h [h [Num 0, Num 1], Num 2], Num 3] (h [h [h [Num 0, Num 1], Num 2], Num 3]),
            Advance (Yield (Num 4)),
            Call [h [h [h [Num 0, Num 1], Num 2], Num 3], Num 4]
              (h [h [h [h [Num 0, Num 1], Num 2], Num 3], Num 4]),
            Advance Done], w)))"
proof -
  have guard: "infinite this \<longrightarrow>
      forEach this cb w = Some (Inl InfiniteSequenceError, w) \<and>
      reduce this (Fun f) w = Some (Inl InfiniteSequenceError, w) \<and>
      forEach (observed this) cb' (tr, w) = Some (Inl InfiniteSequenceError, (tr, w)) \<and>
      reduce (observed this) (Fun f') (tr, w) = Some (Inl InfiniteSequenceError, (tr, w))"
    by (simp add: forEach_def reduce_def observed_def)
  have each: "forEach (observed (take_lazy 5 (new_Lazy 0 naturals_next (Some True))))
        (Fun (logged (pure g))) ([], w) =
        Some (Inr Undefined,
          ([Advance (Yield (Num 0)), Call [Num 0] (g [Num 0]),
            Advance (Yield (Num 1)), Call [Num 1] (g [Num 1]),
            Advance (Yield (Num 2)), Call [Num 2] (g [Num 2]),
            Advance (Yield (Num 3)), Call [Num 3] (g [Num 3]),
            Advance (Yield (Num 4)), Call [Num 4] (g [Num 4]),
            Advance Done], w))"
    by (simp add: run_simps)
  have red: "reduce (observed (take_lazy 5 (new_Lazy 0 naturals_next (Some True))))
        (Fun (logged (pure h))) ([], w) =
        Some (Inr (h [h [h [h [Num 0, Num 1], Num 2], Num 3], Num 4]),
          ([Advance (Yield (Num 0)),
            Advance (Yield (Num 0)),
            Advance (Yield (Num 1)), Call [Num 0, Num 1] (h [Num 0, Num 1]),
            Advance (Yield (Num 2)), Call [h [Num 0, Num 1], Num 2] (h [h [Num 0, Num 1], Num 2]),
            Advance (Yield (Num 3)),
            Call [h [h [Num 0, Num 1], Num 2], Num 3] (h [h [h [Num 0, Num 1], Num 2], Num 3]),
            Advance (Yield (Num 4)),
            Call [h [h [h [Num 0, Num 1], Num 2], Num 3], Num 4]
              (h [h [h [h [Num 0, Num 1], Num 2], Num 3], Num 4]),
            Advance Done], w))"
    by (simp add: run_simps)
  show ?thesis
    using guard each red by (simp add: naturals_def new_Lazy_def)
qed

theorem forEach_reduce_unbounded_guard_witness:
  "infinite (new_Lazy 0 naturals_next (Some True) :: (int, unit) Lazy) \<and>
   forEach (new_Lazy 0 naturals_next (Some True)) (Fun (pure (\<lambda>args. Undefined))) () =
     Some (Inl InfiniteSequenceError, ()) \<and>
   reduce (new_Lazy 0 naturals_next (Some True)) (Fun (pure sum_js)) () =
     Some (Inl InfiniteSequenceError, ())"
  using forEach_reduce_unbounded_guard
    [of "new_Lazy 0 naturals_next (Some True)" "Fun (pure (\<lambda>args. Undefined))" "()" "pure sum_js"]
  by (simp add: new_Lazy_def)

subsection \<open>\<open>cons\<close>\<close>

lemma draw_cons_rest:
  "draw (cons_next a b) m (Suspended (ConsRest it)) w = draw (it_next b) m it w"
proof (induction m arbitrary: it w)
  case 0
  show ?case by simp
next
  case (Suc m)
  then show ?case
    by (simp add: cons_next_def yield_star_def split: option.split step.split)
qed

lemma draw_cons_head:
  "get_iterator b = Inr it \<Longrightarrow>
   draw (cons_next a b) m (Suspended ConsHead) w = draw (it_next b) m it w"
  by (cases m)
    (simp_all add: cons_next_def yield_star_def draw_cons_rest split: option.split step.split)

text \<open>
  C6. \<open>cons(a, b)\<close> throws a \<open>TypeError\<close> when \<open>b\<close> has no \<open>[Symbol.iterator]\<close>. When
  \<open>b\<close> can be iterated over, the result's tag is the third argument if one is given,
  else the tag of \<open>b\<close> if \<open>b\<close> is a \<open>Lazy\<close> object, else false; and a cursor of the
  result hands out \<open>a\<close> and then what the iterator of \<open>b\<close> hands out: drawing \<open>m + 1\<close>
  elements gives \<open>a\<close> followed by the \<open>m\<close> elements drawn from \<open>b\<close>.
  \<open>[ ...Lazy.cons(1, [2, 3, 4, 5]) ]\<close> is \<open>[1, 2, 3, 4, 5]\<close>, with tag false.
\<close>

theorem cons_prepends:
  "cons a (NonIterable v) tag = Inl TypeError \<and>
   (get_iterator b = Inr it \<longrightarrow>
      (\<exists>L. cons a b tag = Inr L \<and>
         infinite L =
           (case tag of Some t \<Rightarrow> t | None \<Rightarrow> (case b of Seq s \<Rightarrow> infinite s | _ \<Rightarrow> False)) \<and>
         draw (advance L) (Suc m) (start L) w =
           map_option (\<lambda>(ks, v). (a # ks, v)) (draw (it_next b) m it w))) \<and>
   (\<exists>L. cons (Num 1) (Arr [Num 2, Num 3, Num 4, Num 5]) None = Inr L \<and>
      infinite L = False \<and>
      spread L w = Some (Inr (Array [Num 1, Num 2, Num 3, Num 4, Num 5]), w))"
proof -
  have rest: "draw (cons_next a b) (Suc m) (Suspended ConsStart) w =
      map_option (\<lambda>(ks, v). (a # ks, v)) (draw (it_next b) m it w)"
    if "get_iterator b = Inr it"
    using draw_cons_head [OF that, of a m w]
    by (simp add: cons_next_def split: option.split)
  have tag: "\<exists>L. cons a b tag = Inr L \<and> start L = Suspended ConsStart \<and>
      advance L = cons_next a b \<and>
      infinite L =
        (case tag of Some t \<Rightarrow> t | None \<Rightarrow> (case b of Seq s \<Rightarrow> infinite s | _ \<Rightarrow> False))"
    if "get_iterator b = Inr it"
    using that by (cases b; cases tag) (simp_all add: cons_def get_iterator_def new_Lazy_def)
  have demo: "\<exists>L. cons (Num 1) (Arr [Num 2, Num 3, Num 4, Num 5]) None = Inr L \<and>
      infinite L = False \<and>
      spread L w = Some (Inr (Array [Num 1, Num 2, Num 3, Num 4, Num 5]), w)"
    by (simp add: cons_def new_Lazy_def spread_def spread_loop.simps cons_next_def
        get_iterator_def yield_star_def)
  show ?thesis
  proof (intro conjI impI)
    show "cons a (NonIterable v) tag = Inl TypeError"
      by (simp add: cons_def)
  next
    assume it: "get_iterator b = Inr it"
    from tag [OF it] obtain L where L: "cons a b tag = Inr L" "start L = Suspended ConsStart"
      "advance L = cons_next a b"
      "infinite L =
        (case tag of Some t \<Rightarrow> t | None \<Rightarrow> (case b of Seq s \<Rightarrow> infinite s | _ \<Rightarrow> False))"
      by blast
    from rest [OF it] L(2,3)
    have "draw (advance L) (Suc m) (start L) w =
        map_option (\<lambda>(ks, v). (a # ks, v)) (draw (it_next b) m it w)"
      by simp
    with L(1,4) show "\<exists>L. cons a b tag = Inr L \<and>
        infinite L =
          (case tag of Some t \<Rightarrow> t | None \<Rightarrow> (case b of Seq s \<Rightarrow> infinite s | _ \<Rightarrow> False)) \<and>
        draw (advance L) (Suc m) (start L) w =
          map_option (\<lambda>(ks, v). (a # ks, v)) (draw (it_next b) m it w)"
      by blast
  next
    show "\<exists>L. cons (Num 1) (Arr [Num 2, Num 3, Num 4, Num 5]) None = Inr L \<and>
      infinite L = False \<and>
      spread L w = Some (Inr (Array [Num 1, Num 2, Num 3, Num 4, Num 5]), w)"
      by (rule demo)
  qed
qed

theorem cons_prepends_witness:
  "get_iterator (Arr [Num 2, Num 3] :: (unit, unit) iterable) = Inr (ArrIt [Num 2, Num 3] 0) \<and>
   (\<exists>L. cons (Num 1) (Arr [Num 2, Num 3] :: (unit, unit) iterable) None = Inr L \<and>
      infinite L = False \<and>
      draw (advance L) 3 (start L) () = Some ([Num 1, Num 2, Num 3], ()))"
proof -
  have d: "draw (it_next (Arr [Num 2, Num 3] :: (unit, unit) iterable)) 2 (ArrIt [Num 2, Num 3] 0) () =
      Some ([Num 2, Num 3], ())"
    by (simp add: numeral_2_eq_2)
  have three: "(3::nat) = Suc 2"
    by simp
  show ?thesis
    using cons_prepends [of "Num 1" Undefined None "Arr [Num 2, Num 3] :: (unit, unit) iterable"
        "ArrIt [Num 2, Num 3] 0" 2 "()"]
    unfolding three by (auto simp add: get_iterator_def d simp del: draw.simps)
qed

subsection \<open>\<open>zip\<close>\<close>

text \<open>
  \<open>zip\<close> throws a \<open>TypeError\<close> when an input has no \<open>[Symbol.iterator]\<close>; otherwise
  the tag of its result is true only when both inputs are \<open>Lazy\<close> objects with a true tag.
\<close>

lemma zip_type_error:
  "zip_lazy (NonIterable v) b = Inl TypeError \<and> zip_lazy a (NonIterable v) = Inl TypeError"
  by (cases a) (simp_all add: zip_lazy_def)

lemma zip_tag:
  "zip_lazy a b = Inr Z \<Longrightarrow>
   infinite Z = (case (a, b) of (Seq A, Seq B) \<Rightarrow> infinite A \<and> infinite B | _ \<Rightarrow> False)"
  by (cases a; cases b)
    (auto simp add: zip_lazy_def new_Lazy_def js_and_def split: bool.splits)

text \<open>
  Two \<open>Lazy\<close> inputs are paired position by position, up to the end of the shorter one:
  \<open>zip(naturals(0), naturals(1).take(3))\<close> has three pairs and tag false.
\<close>

lemma zip_lazy_inputs:
  "\<exists>N M Z. naturals (Num 0) = Inr N \<and> naturals (Num 1) = Inr M \<and>
     zip_lazy (Seq N) (Seq (take_lazy 3 M)) = Inr Z \<and>
     infinite Z = False \<and>
     spread Z w =
       Some (Inr (Array [Array [Num 0, Num 1], Array [Num 1, Num 2], Array [Num 2, Num 3]]), w)"
  by (simp add: naturals_def zip_lazy_def new_Lazy_def js_and_def zip_next_def zip_loop_def
      spread_def spread_loop.simps gen_it_def naturals_next_def take_lazy_def take_next_def)

text \<open>
  With a native array as either input, whatever the other one, the first \<open>next()\<close> of a
  cursor of the result throws, and the program state is as before.
\<close>

lemma zip_array_never_pairs:
  "zip_lazy a (Arr xs) = Inl TypeError \<or>
   (\<exists>Z. zip_lazy a (Arr xs) = Inr Z \<and>
      advance Z (start Z) w = Some (Throw TypeError, Completed, w))"
  by (cases a) (simp_all add: zip_lazy_def new_Lazy_def zip_next_def)

lemma zip_array_first_never_pairs:
  "zip_lazy (Arr xs) b = Inl TypeError \<or>
   (\<exists>Z. zip_lazy (Arr xs) b = Inr Z \<and>
      advance Z (start Z) w = Some (Throw TypeError, Completed, w))"
  by (cases b) (simp_all add: zip_lazy_def new_Lazy_def zip_next_def)

text \<open>
  C3. With a native array as an input, \<open>zip\<close> passes its check and computes the tag, but
  the sequence it returns cannot be traversed: the generator calls the array's iterator
  function without the array, which is a \<open>TypeError\<close> at the first \<open>next()\<close>.
  \<open>zip(naturals(0), [1, 2, 3])\<close> has tag false and yields no pair.
\<close>

theorem zip_native_array_throws:
  "\<exists>N Z. naturals (Num 0) = Inr N \<and> infinite N \<and>
     zip_lazy (Seq N) (Arr [Num 1, Num 2, Num 3]) = Inr Z \<and>
     infinite Z = False \<and>
     advance Z (start Z) w = Some (Throw TypeError, Completed, w) \<and>
     spread Z w = Some (Inl TypeError, w)"
  by (simp add: naturals_def zip_lazy_def new_Lazy_def js_and_def zip_next_def
      spread_def spread_loop.simps)

subsection \<open>\<open>head\<close> and \<open>reduce\<close> on a sequence without elements\<close>

text \<open>
  C2, as stated, fails: \<open>lazy.js\<close> has no error for an empty sequence. On
  \<open>naturals(0).take(0)\<close>, which has tag false and no element, \<open>head\<close> and \<open>reduce\<close>
  return \<open>undefined\<close>.
\<close>

theorem head_reduce_empty_counterexample:
  "infinite (take_lazy 0 (new_Lazy 0 naturals_next (Some True) :: (int, unit) Lazy)) = False \<and>
   draw (advance (take_lazy 0 (new_Lazy 0 naturals_next (Some True) :: (int, unit) Lazy)))
     1 (start (take_lazy 0 (new_Lazy 0 naturals_next (Some True) :: (int, unit) Lazy))) () = Some ([], ()) \<and>
   head (take_lazy 0 (new_Lazy 0 naturals_next (Some True) :: (int, unit) Lazy)) () = Some (Inr Undefined, ()) \<and>
   reduce (take_lazy 0 (new_Lazy 0 naturals_next (Some True) :: (int, unit) Lazy)) (Fun (pure sum_js)) () =
     Some (Inr Undefined, ())"
  by (simp add: run_simps)

text \<open>
  C2, amended. Let the tag of a sequence be false and let every fresh cursor of it report
  exhaustion at its first \<open>next()\<close>, in whatever program state. Then \<open>head\<close> returns
  \<open>undefined\<close>, and \<open>reduce\<close>, given a function, returns \<open>undefined\<close>; neither throws.
\<close>

theorem head_reduce_empty_undefined:
  assumes tag: "\<not> infinite this"
    and empty: "\<forall>v. \<exists>s' v'. advance this (start this) v = Some (Done, s', v')"
  shows "(\<exists>w'. head this w = Some (Inr Undefined, w')) \<and>
         (\<exists>w'. reduce this (Fun f) w = Some (Inr Undefined, w'))"
proof -
  from empty obtain s1 w1 where a1: "advance this (start this) w = Some (Done, s1, w1)"
    by blast
  then have h: "head this w = Some (Inr Undefined, w1)"
    by (simp add: head_def take_lazy_def new_Lazy_def take_next_def)
  from empty obtain s2 w2 where a2: "advance this (start this) w1 = Some (Done, s2, w2)"
    by blast
  then have "drop_next 1 (advance this) (Suspended (0, start this)) w1 = Some (Done, Completed, w2)"
    by (subst drop_next.simps) simp
  then have "reduce_loop f (drop_next 1 (advance this)) Undefined (Suspended (0, start this)) w1 =
      Some (Inr Undefined, w2)"
    by (subst reduce_loop.simps) simp
  with tag h have "reduce this (Fun f) w = Some (Inr Undefined, w2)"
    by (simp add: reduce_def tail_def drop_lazy_def new_Lazy_def)
  with h show ?thesis by blast
qed

theorem head_reduce_empty_undefined_witness:
  "\<not> infinite (take_lazy 0 (new_Lazy 0 naturals_next (Some True) :: (int, unit) Lazy)) \<and>
   (\<forall>v. \<exists>s' v'. advance (take_lazy 0 (new_Lazy 0 naturals_next (Some True) :: (int, unit) Lazy))
       (start (take_lazy 0 (new_Lazy 0 naturals_next (Some True) :: (int, unit) Lazy))) v = Some (Done, s', v')) \<and>
   (\<exists>w'. head (take_lazy 0 (new_Lazy 0 naturals_next (Some True) :: (int, unit) Lazy)) () = Some (Inr Undefined, w')) \<and>
   (\<exists>w'. reduce (take_lazy 0 (new_Lazy 0 naturals_next (Some True) :: (int, unit) Lazy)) (Fun (pure sum_js)) () =
      Some (Inr Undefined, w'))"
proof -
  have t: "\<not> infinite (take_lazy 0 (new_Lazy 0 naturals_next (Some True) :: (int, unit) Lazy))"
    by (simp add: take_lazy_def new_Lazy_def)
  have e: "\<forall>v. \<exists>s' v'. advance (take_lazy 0 (new_Lazy 0 naturals_next (Some True) :: (int, unit) Lazy))
       (start (take_lazy 0 (new_Lazy 0 naturals_next (Some True) :: (int, unit) Lazy))) v = Some (Done, s', v')"
    by (simp add: take_lazy_def new_Lazy_def take_next_def naturals_next_def)
  from head_reduce_empty_undefined [OF t e, of "()" "pure sum_js"] t e show ?thesis
    by blast
qed

subsection \<open>The Fibonacci numbers of \<open>test.js\<close>\<close>

text \<open>
  A generator object of \<open>f\<close> that has handed out \<open>k + 1\<close> elements hands out the next
  one through its chain of delegations, which grows by one.
\<close>

lemma f_next_start:
  "f_next (Suspended (FStart a b)) w = Some (Yield (Num a), Suspended (unfolded 0 a b), w)"
  by (simp add: f_body_def cons_def new_Lazy_def cons_next_def)

lemma f_next_unfolded:
  "f_next (Suspended (unfolded k a b)) w =
     Some (Yield (Num (fib_elem (Suc k) a b)), Suspended (unfolded (Suc k) a b), w)"
proof (induction k arbitrary: a b)
  case 0
  show ?case
    by (simp add: f_body_def cons_def new_Lazy_def cons_next_def get_iterator_def
        yield_star_def gen_it_def)
next
  case (Suc k)
  from Suc.IH [of b "a + b"] show ?case
    by (simp add: f_body_def cons_def new_Lazy_def cons_next_def yield_star_def gen_it_def)
qed

lemma fibs_eq: "fibs = Inr (new_Lazy (Suspended FromStart) fibs_next (Some True))"
  by (simp add: fibs_def from_lazy_def fibs_next_def)

lemma fibs_next_start:
  "fibs_next (Suspended FromStart) w =
     Some (Yield (Num 1), Suspended (FromRest (GenIt (Suspended (unfolded 0 1 1)))), w)"
  by (simp add: fibs_next_def from_next_def get_iterator_def yield_star_def gen_it_def f_next_start
      del: f_next.simps)

lemma fibs_next_unfolded:
  "fibs_next (Suspended (FromRest (GenIt (Suspended (unfolded k 1 1))))) w =
     Some (Yield (Num (fib_elem (Suc k) 1 1)),
           Suspended (FromRest (GenIt (Suspended (unfolded (Suc k) 1 1)))), w)"
  by (simp add: fibs_next_def from_next_def yield_star_def gen_it_def f_next_unfolded
      del: f_next.simps unfolded.simps fib_elem.simps)

lemma f2_next_start:
  "f2_next a b (F2 (Suspended ConsStart)) w = Some (Yield (Num a), unfolded2 0, w)"
  by (simp add: f2_body_def from_lazy_def cons_def new_Lazy_def cons_next_def)

lemma f2_next_unfolded:
  "f2_next a b (unfolded2 k) w = Some (Yield (Num (fib_elem (Suc k) a b)), unfolded2 (Suc k), w)"
proof (induction k arbitrary: a b)
  case 0
  show ?case
    by (subst f2_next.simps)
      (simp add: f2_body_def from_lazy_def cons_def new_Lazy_def cons_next_def get_iterator_def
        yield_star_def gen_it_def from_next_def f2_next_start del: f2_next.simps)
next
  case (Suc k)
  from Suc.IH [of b "a + b"] show ?case
    by (subst f2_next.simps)
      (simp add: f2_body_def from_lazy_def cons_def new_Lazy_def cons_next_def
        yield_star_def gen_it_def from_next_def del: f2_next.simps)
qed

lemmas euler2_simps =
  euler2_of_def takeWhile_lazy_def filter_lazy_def reduce_def head_def tail_def
  take_lazy_def take_next_def drop_lazy_def drop_next.simps new_Lazy_def takeWhile_next_def
  filter_next.simps reduce_loop.simps pure_def below_4000000_def isEven_def sum_js_def

lemma euler2_of_fibs2: "euler2_of fibs2 w = Some (Inr (Num 4613732), w)"
  by (simp add: euler2_simps fibs2_def f2_next_start f2_next_unfolded
      del: f2_next.simps unfolded2.simps)

lemma euler2_of_fibs: "euler2_of fibs w = Some (Inr (Num 4613732), w)"
  by (simp add: euler2_simps fibs_eq fibs_next_start fibs_next_unfolded del: unfolded.simps)

text \<open>
  C8. \<open>fibs().takeWhile(n => n < 4000000).filter(isEven).reduce(sum)\<close> returns, and its
  value is 4613732, whatever the program state, which it leaves as it was. The same
  chain of calls on \<open>fibs2()\<close>, the definition without generators, gives the same.
\<close>

theorem euler2_value:
  "euler2 w = Some (Inr (Num 4613732), w) \<and> euler2_of fibs2 w = Some (Inr (Num 4613732), w)"
  by (simp add: euler2_def euler2_of_fibs euler2_of_fibs2)

subsection \<open>What \<open>take\<close> asks of its origin\<close>

lemma draw_length: "draw nxt m s w = Some (zs, w') \<Longrightarrow> length zs \<le> m"
  by (induction m arbitrary: s w zs)
    (auto split: option.splits step.splits prod.splits)

lemma draw_take_observed:
  "draw nxt (Suc j) s w = Some (zs, w') \<Longrightarrow> length zs = Suc j \<Longrightarrow>
   draw (take_next (int (i + j)) (traced nxt)) (Suc j + e) (Suspended (i, s)) (tr, w) =
     Some (take j zs, (tr @ map (\<lambda>z. Advance (Yield z)) zs, w'))"
proof (induction j arbitrary: i s w tr zs)
  case 0
  then show ?case
    by (auto simp add: take_next_def traced_def split: option.splits step.splits)
next
  case (Suc j)
  from Suc.prems obtain z s1 w1 zs' where
    first: "nxt s w = Some (Yield z, s1, w1)" and
    rest: "draw nxt (Suc j) s1 w1 = Some (zs', w')" and
    zs: "zs = z # zs'"
    by (auto split: option.splits step.splits simp del: draw.simps
        simp add: draw.simps(2) [of nxt "Suc j"])
  from Suc.prems zs have len: "length zs' = Suc j" by simp
  have step: "take_next (int (i + Suc j)) (traced nxt) (Suspended (i, s)) (tr, w) =
      Some (Yield z, Suspended (Suc i, s1), (tr @ [Advance (Yield z)], w1))"
    using first by (simp add: take_next_def traced_def)
  have "draw (take_next (int (i + Suc j)) (traced nxt)) (Suc (Suc j) + e) (Suspended (i, s)) (tr, w) =
      (case draw (take_next (int (i + Suc j)) (traced nxt)) (Suc j + e) (Suspended (Suc i, s1))
              (tr @ [Advance (Yield z)], w1) of
         None \<Rightarrow> None
       | Some (ks, w'') \<Rightarrow> Some (z # ks, w''))"
    using step by simp
  also have "\<dots> = Some (z # take j zs', (tr @ Advance (Yield z) # map (\<lambda>z. Advance (Yield z)) zs', w'))"
    using Suc.IH [OF rest len, of "Suc i" "tr @ [Advance (Yield z)]"]
    by (simp del: draw.simps)
  finally show ?case
    using zs by (simp del: draw.simps)
qed

text \<open>
  C9. Let \<open>n + 1\<close> elements \<open>zs\<close> be drawn from a fresh cursor of the origin (the origin
  has more than \<open>n\<close> elements). A consumer that goes on to the end of a cursor of
  \<open>take(n)\<close> over the observed origin, that is, is ready to call \<open>next()\<close> more than \<open>n\<close>
  times, receives the first \<open>n\<close> of them, and the trace holds \<open>n + 1\<close> calls of the
  origin's \<open>next()\<close>: all of \<open>zs\<close> was computed, and its last element dropped. For
  \<open>n = 0\<close> nothing is received and one element is computed.
\<close>

theorem take_advances_origin_once_more:
  assumes "draw (advance this) (Suc n) (start this) w = Some (zs, w')"
    and "length zs = Suc n"
    and "n < m"
  shows "draw (advance (take_lazy (int n) (observed this))) m
           (start (take_lazy (int n) (observed this))) ([], w) =
         Some (take n zs, (map (\<lambda>z. Advance (Yield z)) zs, w'))"
proof -
  from \<open>n < m\<close> obtain e where m: "m = Suc n + e"
    using less_iff_Suc_add by auto
  from draw_take_observed [OF assms(1,2), of 0 e "[]"] show ?thesis
    unfolding m by (simp add: take_lazy_def new_Lazy_def observed_def del: draw.simps)
qed

theorem take_advances_origin_once_more_witness:
  "draw (advance (new_Lazy 7 naturals_next (Some True) :: (int, unit) Lazy)) (Suc 0)
      (start (new_Lazy 7 naturals_next (Some True) :: (int, unit) Lazy)) () = Some ([Num 7], ()) \<and>
   length [Num 7] = Suc 0 \<and> (0::nat) < 3 \<and>
   draw (advance (take_lazy (int 0) (observed (new_Lazy 7 naturals_next (Some True) :: (int, unit) Lazy)))) 3
      (start (take_lazy (int 0) (observed (new_Lazy 7 naturals_next (Some True) :: (int, unit) Lazy))))
      ([], ()) =
     Some ([], ([Advance (Yield (Num 7))], ()))"
proof -
  have d: "draw (advance (new_Lazy 7 naturals_next (Some True) :: (int, unit) Lazy)) (Suc 0)
      (start (new_Lazy 7 naturals_next (Some True) :: (int, unit) Lazy)) () = Some ([Num 7], ())"
    by (simp add: new_Lazy_def naturals_next_def)
  have l: "length [Num 7] = Suc 0" by simp
  have b: "(0::nat) < 3" by simp
  from take_advances_origin_once_more [OF d l b] d l b show ?thesis
    by (intro conjI) (simp_all only: list.map take_0)
qed

subsection \<open>\<open>take\<close> and \<open>drop\<close> split the origin\<close>

lemma draw_take_prefix:
  "draw nxt (j + m) s w = Some (zs, w') \<Longrightarrow>
   \<exists>w1. draw (take_next (int (i + j)) nxt) j (Suspended (i, s)) w = Some (take j zs, w1)"
proof (induction j arbitrary: i s w zs)
  case 0
  show ?case by simp
next
  case (Suc j)
  show ?case
  proof (cases "nxt s w")
    case None
    with Suc.prems show ?thesis by simp
  next
    case (Some r)
    obtain x s1 w1 where r: "r = (x, s1, w1)" by (cases r)
    show ?thesis
    proof (cases x)
      case (Yield z)
      with Some r Suc.prems obtain zs' where
        rest: "draw nxt (j + m) s1 w1 = Some (zs', w')" and zs: "zs = z # zs'"
        by (auto split: option.splits)
      from Suc.IH [OF rest, of "Suc i"] obtain v where
        ih: "draw (take_next (int (i + Suc j)) nxt) j (Suspended (Suc i, s1)) w1 = Some (take j zs', v)"
        by auto
      have "take_next (int (i + Suc j)) nxt (Suspended (i, s)) w =
          Some (Yield z, Suspended (Suc i, s1), w1)"
        using Some r Yield by (simp add: take_next_def)
      then have "draw (take_next (int (i + Suc j)) nxt) (Suc j) (Suspended (i, s)) w =
          (case draw (take_next (int (i + Suc j)) nxt) j (Suspended (Suc i, s1)) w1 of
             None \<Rightarrow> None
           | Some (ks, w'') \<Rightarrow> Some (z # ks, w''))"
        by (simp only: draw.simps option.case prod.case step.case)
      with ih zs show ?thesis
        by (simp only: option.case prod.case take_Suc_Cons) blast
    next
      case Done
      with Some r Suc.prems show ?thesis
        by (auto simp add: take_next_def)
    next
      case (Throw e)
      with Some r Suc.prems show ?thesis
        by (auto simp add: take_next_def)
    qed
  qed
qed

lemma draw_drop_pass:
  "n \<le> int i \<Longrightarrow> draw (drop_next n nxt) m (Suspended (i, s)) w = draw nxt m s w"
proof (induction m arbitrary: i s w)
  case 0
  show ?case by simp
next
  case (Suc m)
  from Suc.prems have "n \<le> int (i + 1)" by simp
  from Suc.IH [OF this] Suc.prems show ?case
    by (simp add: drop_next.simps [of n nxt "Suspended (i, s)"]
        split: option.split step.split)
qed

lemma draw_drop_suffix:
  "draw nxt (j + m) s w = Some (zs, w') \<Longrightarrow>
   \<exists>w2. draw (drop_next (int (i + j)) nxt) m (Suspended (i, s)) w = Some (drop j zs, w2)"
proof (induction j arbitrary: i s w zs)
  case 0
  then show ?case by (simp add: draw_drop_pass)
next
  case (Suc j)
  show ?case
  proof (cases m)
    case 0
    with Suc.prems have "length zs \<le> Suc j"
      using draw_length [of nxt "Suc j" s w zs w'] by simp
    with 0 show ?thesis by simp
  next
    case m: (Suc m')
    show ?thesis
    proof (cases "nxt s w")
      case None
      with Suc.prems show ?thesis by simp
    next
      case (Some r)
      obtain x s1 w1 where r: "r = (x, s1, w1)" by (cases r)
      show ?thesis
      proof (cases x)
        case (Yield z)
        with Some r Suc.prems obtain zs' where
          rest: "draw nxt (j + m) s1 w1 = Some (zs', w')" and zs: "zs = z # zs'"
          by (auto split: option.splits)
        from Suc.IH [OF rest, of "Suc i"] obtain v where
          ih: "draw (drop_next (int (i + Suc j)) nxt) m (Suspended (Suc i, s1)) w1 =
            Some (drop j zs', v)"
          by auto
        have skip: "drop_next (int (i + Suc j)) nxt (Suspended (i, s)) w =
            drop_next (int (i + Suc j)) nxt (Suspended (Suc i, s1)) w1"
          using Some r Yield by (subst drop_next.simps) simp
        have "draw (drop_next (int (i + Suc j)) nxt) (Suc m') (Suspended (i, s)) w =
            draw (drop_next (int (i + Suc j)) nxt) (Suc m') (Suspended (Suc i, s1)) w1"
          by (simp only: draw.simps skip)
        with ih m zs show ?thesis
          by (simp only: drop_Suc_Cons) blast
      next
        case Done
        with Some r Suc.prems m show ?thesis
          by (auto simp add: drop_next.simps [of _ nxt "Suspended (i, s)"])
      next
        case (Throw e)
        with Some r Suc.prems m show ?thesis
          by (auto simp add: drop_next.simps [of _ nxt "Suspended (i, s)"])
      qed
    qed
  qed
qed

text \<open>
  Asked for more than \<open>n\<close> elements, a cursor of \<open>take(n)\<close> still gives \<open>n\<close>: its
  \<open>next()\<close> number \<open>n + 1\<close> reports the end, provided the origin answers once more.
\<close>

lemma draw_take_all:
  "draw nxt (j + m) s w = Some (zs, w') \<Longrightarrow> 0 < m \<Longrightarrow>
   \<exists>w1. draw (take_next (int (i + j)) nxt) (Suc (j + e)) (Suspended (i, s)) w =
     Some (take j zs, w1)"
proof (induction j arbitrary: i s w zs)
  case 0
  then obtain m' where m: "m = Suc m'" by (cases m) auto
  show ?case
  proof (cases "nxt s w")
    case None
    with 0 m show ?thesis by simp
  next
    case (Some r)
    obtain x s1 w1 where r: "r = (x, s1, w1)" by (cases r)
    have "\<exists>v. take_next (int (i + 0)) nxt (Suspended (i, s)) w = Some (Done, Completed, v) \<or>
        (\<exists>err. take_next (int (i + 0)) nxt (Suspended (i, s)) w = Some (Throw err, Completed, v))"
      using Some r by (cases x) (simp_all add: take_next_def)
    then show ?thesis
      by (auto simp only: draw.simps option.case prod.case step.case take_0)
  qed
next
  case (Suc j)
  show ?case
  proof (cases "nxt s w")
    case None
    with Suc.prems show ?thesis by simp
  next
    case (Some r)
    obtain x s1 w1 where r: "r = (x, s1, w1)" by (cases r)
    show ?thesis
    proof (cases x)
      case (Yield z)
      with Some r Suc.prems obtain zs' where
        rest: "draw nxt (j + m) s1 w1 = Some (zs', w')" and zs: "zs = z # zs'"
        by (auto split: option.splits)
      from Suc.IH [OF rest Suc.prems(2), of "Suc i"] obtain v where
        ih: "draw (take_next (int (i + Suc j)) nxt) (Suc (j + e)) (Suspended (Suc i, s1)) w1 =
          Some (take j zs', v)"
        by auto
      have "take_next (int (i + Suc j)) nxt (Suspended (i, s)) w =
          Some (Yield z, Suspended (Suc i, s1), w1)"
        using Some r Yield by (simp add: take_next_def)
      then have "draw (take_next (int (i + Suc j)) nxt) (Suc (Suc (j + e))) (Suspended (i, s)) w =
          (case draw (take_next (int (i + Suc j)) nxt) (Suc (j + e)) (Suspended (Suc i, s1)) w1 of
             None \<Rightarrow> None
           | Some (ks, w'') \<Rightarrow> Some (z # ks, w''))"
        by (simp only: draw.simps option.case prod.case step.case)
      with ih zs show ?thesis
        by (simp only: option.case prod.case take_Suc_Cons add_Suc) blast
    next
      case Done
      with Some r Suc.prems show ?thesis
        by (auto simp add: take_next_def)
    next
      case (Throw err)
      with Some r Suc.prems show ?thesis
        by (auto simp add: take_next_def)
    qed
  qed
qed

lemma spread_take:
  "draw nxt (j + m) s w = Some (zs, w') \<Longrightarrow> j < length zs \<Longrightarrow>
   \<exists>w1. spread_loop (take_next (int (i + j)) nxt) acc (Suspended (i, s)) w =
     Some (Inr (Array (acc @ take j zs)), w1)"
proof (induction j arbitrary: i s w zs acc)
  case 0
  then obtain z zs' where zs: "zs = z # zs'" by (cases zs) auto
  with 0 obtain m' where m: "m = Suc m'" by (cases m) auto
  from 0 zs m obtain s1 w1 where "nxt s w = Some (Yield z, s1, w1)"
    by (auto split: option.splits step.splits)
  then have "take_next (int (i + 0)) nxt (Suspended (i, s)) w = Some (Done, Completed, w1)"
    by (simp add: take_next_def)
  then show ?case
    by (subst spread_loop.simps) simp
next
  case (Suc j)
  then obtain z zs' where zs: "zs = z # zs'" by (cases zs) auto
  with Suc.prems obtain s1 w1 where first: "nxt s w = Some (Yield z, s1, w1)" and
    rest: "draw nxt (j + m) s1 w1 = Some (zs', w')"
    by (auto split: option.splits step.splits)
  from Suc.prems zs have len: "j < length zs'" by simp
  from Suc.IH [OF rest len, of "Suc i" "acc @ [z]"] obtain v where
    ih: "spread_loop (take_next (int (i + Suc j)) nxt) (acc @ [z]) (Suspended (Suc i, s1)) w1 =
      Some (Inr (Array ((acc @ [z]) @ take j zs')), v)"
    by auto
  have "take_next (int (i + Suc j)) nxt (Suspended (i, s)) w =
      Some (Yield z, Suspended (Suc i, s1), w1)"
    using first by (simp add: take_next_def)
  then have "spread_loop (take_next (int (i + Suc j)) nxt) acc (Suspended (i, s)) w =
      spread_loop (take_next (int (i + Suc j)) nxt) (acc @ [z]) (Suspended (Suc i, s1)) w1"
    by (subst spread_loop.simps) (simp only: option.case prod.case step.case)
  with ih zs show ?case by simp
qed

lemma draw_same_state:
  "stateless nxt \<Longrightarrow> draw nxt k s w = Some (xs, w1) \<Longrightarrow> w1 = w"
proof (induction k arbitrary: s w xs)
  case 0
  then show ?case by simp
next
  case (Suc k)
  show ?case
  proof (cases "nxt s w")
    case None
    with Suc.prems show ?thesis by simp
  next
    case (Some r)
    obtain x s1 v where r: "r = (x, s1, v)" by (cases r)
    with Some Suc.prems(1) have v: "v = w" by (auto simp add: stateless_def)
    show ?thesis
    proof (cases x)
      case (Yield z)
      with Some r v Suc.prems(2) obtain xs' where "draw nxt k s1 w = Some (xs', w1)"
        by (auto split: option.splits)
      from Suc.IH [OF Suc.prems(1) this] show ?thesis .
    qed (use Some r v Suc.prems(2) in auto)
  qed
qed

lemma stateless_take: "stateless nxt \<Longrightarrow> stateless (take_next n nxt)"
  unfolding stateless_def
  by (auto simp add: take_next_def split: gen.splits option.splits step.splits if_splits)

lemma drop_next_same_state:
  assumes "drop_next n nxt g w = Some y"
  shows "stateless nxt \<longrightarrow> snd (snd y) = w"
proof (rule drop_next.raw_induct [OF _ assms], goal_cases)
  case (1 rec n nxt g w y)
  show ?case
  proof
    assume st: "stateless nxt"
    show "snd (snd y) = w"
    proof (cases g)
      case Completed
      with 1(2) show ?thesis by auto
    next
      case (Suspended l)
      obtain i s where l: "l = (i, s)" by (cases l)
      show ?thesis
      proof (cases "nxt s w")
        case None
        with 1(2) Suspended l show ?thesis by simp
      next
        case (Some r)
        obtain x s1 v where r: "r = (x, s1, v)" by (cases r)
        with Some st have v: "v = w" by (auto simp add: stateless_def)
        show ?thesis
        proof (cases x)
          case (Yield z)
          show ?thesis
          proof (cases "int i < n")
            case True
            with 1(2) Suspended l Some r v Yield
            have "rec n nxt (Suspended (i + 1, s1)) w = Some y" by simp
            from 1(1) [OF this] st show ?thesis by simp
          next
            case False
            with 1(2) Suspended l Some r v Yield show ?thesis by auto
          qed
        qed (use 1(2) Suspended l Some r v in auto)
      qed
    qed
  qed
qed

lemma stateless_drop: "stateless nxt \<Longrightarrow> stateless (drop_next n nxt)"
  unfolding stateless_def [of "drop_next n nxt"]
  using drop_next_same_state [of n nxt] by fastforce

text \<open>
  C7. Let \<open>zs\<close> be what a consumer draws from a fresh cursor of the origin when it asks
  for \<open>n + m\<close> elements (all \<open>n + m\<close> of them, or fewer when the origin ends before).
  From the same program state, a cursor of \<open>take(n)\<close> asked for \<open>n\<close> elements gives the
  first \<open>n\<close> of \<open>zs\<close>, a cursor of \<open>drop(n)\<close> asked for \<open>m\<close> elements gives the rest of
  \<open>zs\<close>, and the two together are \<open>zs\<close>. These \<open>n\<close> elements are all that \<open>take(n)\<close>
  yields: when \<open>m\<close> is positive, so that the origin was asked once more, a cursor of
  \<open>take(n)\<close> asked for any larger number of elements gives the same ones, and when the
  origin has more than \<open>n\<close> elements, \<open>[ ...orig.take(n) ]\<close> is the array of them. When the
  origin's cursors leave the program state alone, so do those of \<open>take(n)\<close> and
  \<open>drop(n)\<close>, and the run of \<open>drop(n)\<close> may follow that of \<open>take(n)\<close>.
\<close>

theorem take_drop_complement:
  assumes "draw (advance this) (n + m) (start this) w = Some (zs, w')"
  shows "\<exists>xs ys w1 w2.
    draw (advance (take_lazy (int n) this)) n (start (take_lazy (int n) this)) w = Some (xs, w1) \<and>
    draw (advance (drop_lazy (int n) this)) m (start (drop_lazy (int n) this)) w = Some (ys, w2) \<and>
    xs = take n zs \<and> ys = drop n zs \<and> xs @ ys = zs \<and>
    (0 < m \<longrightarrow>
       (\<forall>k. n < k \<longrightarrow>
          (\<exists>w3. draw (advance (take_lazy (int n) this)) k (start (take_lazy (int n) this)) w =
             Some (xs, w3)))) \<and>
    (n < length zs \<longrightarrow>
       (\<exists>w3. spread (take_lazy (int n) this) w = Some (Inr (Array xs), w3))) \<and>
    (stateless (advance this) \<longrightarrow>
       w1 = w \<and> w2 = w \<and>
       draw (advance (drop_lazy (int n) this)) m (start (drop_lazy (int n) this)) w1 =
         Some (ys, w1))"
proof -
  let ?T = "take_next (int n) (advance this)"
  let ?D = "drop_next (int n) (advance this)"
  from draw_take_prefix [OF assms, of 0] obtain w1 where
    t: "draw ?T n (Suspended (0, start this)) w = Some (take n zs, w1)"
    by auto
  from draw_drop_suffix [OF assms, of 0] obtain w2 where
    d: "draw ?D m (Suspended (0, start this)) w = Some (drop n zs, w2)"
    by auto
  have more: "\<exists>w3. draw ?T k (Suspended (0, start this)) w = Some (take n zs, w3)"
    if "0 < m" "n < k" for k
  proof -
    from \<open>n < k\<close> obtain e where k: "k = Suc (n + e)"
      using less_iff_Suc_add by auto
    from draw_take_all [OF assms \<open>0 < m\<close>, of 0 e] show ?thesis
      unfolding k by simp
  qed
  have all: "\<exists>w3. spread_loop ?T [] (Suspended (0, start this)) w = Some (Inr (Array (take n zs)), w3)"
    if "n < length zs"
    using spread_take [OF assms that, of 0 "[]"] by simp
  have same: "w1 = w \<and> w2 = w" if "stateless (advance this)"
    using draw_same_state [OF stateless_take [OF that] t]
      draw_same_state [OF stateless_drop [OF that] d] by simp
  have T: "draw (advance (take_lazy (int n) this)) n (start (take_lazy (int n) this)) w =
      Some (take n zs, w1)"
    using t by (simp add: take_lazy_def new_Lazy_def del: draw.simps)
  have D: "draw (advance (drop_lazy (int n) this)) m (start (drop_lazy (int n) this)) w =
      Some (drop n zs, w2)"
    using d by (simp add: drop_lazy_def new_Lazy_def del: draw.simps)
  have M: "0 < m \<longrightarrow>
      (\<forall>k. n < k \<longrightarrow>
         (\<exists>w3. draw (advance (take_lazy (int n) this)) k (start (take_lazy (int n) this)) w =
            Some (take n zs, w3)))"
    using more by (simp add: take_lazy_def new_Lazy_def del: draw.simps)
  have A: "n < length zs \<longrightarrow>
      (\<exists>w3. spread (take_lazy (int n) this) w = Some (Inr (Array (take n zs)), w3))"
    using all by (simp add: spread_def take_lazy_def new_Lazy_def)
  have S: "stateless (advance this) \<longrightarrow>
      w1 = w \<and> w2 = w \<and>
      draw (advance (drop_lazy (int n) this)) m (start (drop_lazy (int n) this)) w1 =
        Some (drop n zs, w1)"
    using same D by auto
  show ?thesis
    apply (rule exI [of _ "take n zs"])
    apply (rule exI [of _ "drop n zs"])
    apply (rule exI [of _ w1])
    apply (rule exI [of _ w2])
    using T D M A S append_take_drop_id [of n zs] apply (intro conjI)
           apply (assumption | rule refl)+
    done
qed

theorem take_drop_complement_witness:
  "draw (advance (new_Lazy 0 naturals_next (Some True) :: (int, unit) Lazy)) (2 + 3) (start (new_Lazy 0 naturals_next (Some True) :: (int, unit) Lazy)) () = Some ([Num 0, Num 1, Num 2, Num 3, Num 4], ()) \<and>
   (0::nat) < 3 \<and> 2 < length [Num 0, Num 1, Num 2, Num 3, Num 4] \<and> stateless (advance (new_Lazy 0 naturals_next (Some True) :: (int, unit) Lazy)) \<and>
   draw (advance (take_lazy (int 2) (new_Lazy 0 naturals_next (Some True) :: (int, unit) Lazy))) 2 (start (take_lazy (int 2) (new_Lazy 0 naturals_next (Some True) :: (int, unit) Lazy))) () = Some ([Num 0, Num 1], ()) \<and>
   draw (advance (take_lazy (int 2) (new_Lazy 0 naturals_next (Some True) :: (int, unit) Lazy))) 9 (start (take_lazy (int 2) (new_Lazy 0 naturals_next (Some True) :: (int, unit) Lazy))) () = Some ([Num 0, Num 1], ()) \<and>
   spread (take_lazy (int 2) (new_Lazy 0 naturals_next (Some True) :: (int, unit) Lazy)) () = Some (Inr (Array [Num 0, Num 1]), ()) \<and>
   draw (advance (drop_lazy (int 2) (new_Lazy 0 naturals_next (Some True) :: (int, unit) Lazy))) 3 (start (drop_lazy (int 2) (new_Lazy 0 naturals_next (Some True) :: (int, unit) Lazy))) () = Some ([Num 2, Num 3, Num 4], ()) \<and>
   [Num 0, Num 1] @ [Num 2, Num 3, Num 4] = [Num 0, Num 1, Num 2, Num 3, Num 4]"
proof -
  have d: "draw (advance (new_Lazy 0 naturals_next (Some True) :: (int, unit) Lazy)) (2 + 3) (start (new_Lazy 0 naturals_next (Some True) :: (int, unit) Lazy)) () = Some ([Num 0, Num 1, Num 2, Num 3, Num 4], ())"
    by (simp add: new_Lazy_def naturals_next_def numeral_eq_Suc)
  have m: "(0::nat) < 3" by simp
  have l: "2 < length [Num 0, Num 1, Num 2, Num 3, Num 4]" by simp
  have s: "stateless (advance (new_Lazy 0 naturals_next (Some True) :: (int, unit) Lazy))"
    by (simp add: stateless_def new_Lazy_def naturals_next_def)
  from take_drop_complement [OF d] obtain xs ys where
    c: "draw (advance (take_lazy (int 2) (new_Lazy 0 naturals_next (Some True) :: (int, unit) Lazy))) 2 (start (take_lazy (int 2) (new_Lazy 0 naturals_next (Some True) :: (int, unit) Lazy))) () = Some (xs, ())"
      "draw (advance (drop_lazy (int 2) (new_Lazy 0 naturals_next (Some True) :: (int, unit) Lazy))) 3 (start (drop_lazy (int 2) (new_Lazy 0 naturals_next (Some True) :: (int, unit) Lazy))) () = Some (ys, ())"
      "xs = take 2 [Num 0, Num 1, Num 2, Num 3, Num 4]" "ys = drop 2 [Num 0, Num 1, Num 2, Num 3, Num 4]"
      "\<forall>k. 2 < k \<longrightarrow> draw (advance (take_lazy (int 2) (new_Lazy 0 naturals_next (Some True) :: (int, unit) Lazy))) k (start (take_lazy (int 2) (new_Lazy 0 naturals_next (Some True) :: (int, unit) Lazy))) () = Some (xs, ())"
      "spread (take_lazy (int 2) (new_Lazy 0 naturals_next (Some True) :: (int, unit) Lazy)) () = Some (Inr (Array xs), ())"
    using m l by auto
  from c(3) have xs: "xs = [Num 0, Num 1]" by (simp add: numeral_2_eq_2)
  from c(4) have ys: "ys = [Num 2, Num 3, Num 4]" by (simp add: numeral_2_eq_2)
  from c(5) have nine: "draw (advance (take_lazy (int 2) (new_Lazy 0 naturals_next (Some True) :: (int, unit) Lazy))) 9 (start (take_lazy (int 2) (new_Lazy 0 naturals_next (Some True) :: (int, unit) Lazy))) () = Some (xs, ())" by simp
  from d m l s c(1,2,6) nine show ?thesis
    unfolding xs ys by (intro conjI) (simp_all del: draw.simps)
qed

subsection \<open>How often \<open>takeWhile\<close> and \<open>dropWhile\<close> call the predicate\<close>

lemma takeWhile_next_logged:
  "takeWhile_next (logged p) (traced nxt) (Suspended (True, s)) (tr0, w) =
     (case nxt s w of
        None \<Rightarrow> None
      | Some (Yield x, s1, w1) \<Rightarrow>
          (case p [x] w1 of (v, w2) \<Rightarrow>
             if truthy v
             then Some (Yield x, Suspended (True, s1), (tr0 @ [Advance (Yield x), Call [x] v], w2))
             else Some (Done, Completed, (tr0 @ [Advance (Yield x), Call [x] v], w2)))
      | Some (Done, s1, w1) \<Rightarrow> Some (Done, Completed, (tr0 @ [Advance Done], w1))
      | Some (Throw e, s1, w1) \<Rightarrow> Some (Throw e, Completed, (tr0 @ [Advance (Throw e)], w1)))"
  by (simp add: takeWhile_next_def traced_def logged_def split: option.split step.split prod.split)

lemma draw_takeWhile_run:
  "draw (takeWhile_next (logged p) (traced nxt)) m (Suspended (True, s)) (tr0, w) =
     Some (ys, (tr, w')) \<Longrightarrow>
   \<exists>tr1. tr = tr0 @ tr1 \<and> takeWhile_run tr1 ys"
proof (induction m arbitrary: s tr0 w ys)
  case 0
  then show ?case by simp
next
  case (Suc m)
  show ?case
  proof (cases "nxt s w")
    case None
    with Suc.prems show ?thesis
      by (simp add: takeWhile_next_logged)
  next
    case (Some r)
    obtain x s1 w1 where r: "r = (x, s1, w1)" by (cases r)
    show ?thesis
    proof (cases x)
      case (Yield z)
      obtain v w2 where p: "p [z] w1 = (v, w2)" by (cases "p [z] w1")
      show ?thesis
      proof (cases "truthy v")
        case True
        with Some r Yield p Suc.prems obtain ys' where
          rest: "draw (takeWhile_next (logged p) (traced nxt)) m (Suspended (True, s1))
             (tr0 @ [Advance (Yield z), Call [z] v], w2) = Some (ys', (tr, w'))" and
          ys: "ys = z # ys'"
          by (auto simp add: takeWhile_next_logged split: option.splits)
        from Suc.IH [OF rest] obtain tr1 where
          "tr = (tr0 @ [Advance (Yield z), Call [z] v]) @ tr1" "takeWhile_run tr1 ys'"
          by blast
        with True ys show ?thesis by simp
      next
        case False
        with Some r Yield p Suc.prems show ?thesis
          by (auto simp add: takeWhile_next_logged)
      qed
    next
      case Done
      with Some r Suc.prems show ?thesis
        by (auto simp add: takeWhile_next_logged)
    next
      case (Throw e)
      with Some r Suc.prems show ?thesis
        by (auto simp add: takeWhile_next_logged)
    qed
  qed
qed


lemma dropWhile_next_passing:
  "dropWhile_next (logged p) (traced nxt) (Suspended (False, s)) (tr0, w) =
     (case nxt s w of
        None \<Rightarrow> None
      | Some (Yield x, s1, w1) \<Rightarrow>
          Some (Yield x, Suspended (False, s1), (tr0 @ [Advance (Yield x)], w1))
      | Some (Done, s1, w1) \<Rightarrow> Some (Done, Completed, (tr0 @ [Advance Done], w1))
      | Some (Throw e, s1, w1) \<Rightarrow> Some (Throw e, Completed, (tr0 @ [Advance (Throw e)], w1)))"
  by (subst dropWhile_next.simps)
    (simp add: traced_def split: option.split step.split prod.split)

lemma draw_dropWhile_passed:
  "draw (dropWhile_next (logged p) (traced nxt)) m (Suspended (False, s)) (tr0, w) =
     Some (ys, (tr, w')) \<Longrightarrow>
   \<exists>tr1. tr = tr0 @ tr1 \<and> passed tr1 ys"
proof (induction m arbitrary: s tr0 w ys)
  case 0
  then show ?case by simp
next
  case (Suc m)
  show ?case
  proof (cases "nxt s w")
    case None
    with Suc.prems show ?thesis
      by (simp add: dropWhile_next_passing)
  next
    case (Some r)
    obtain x s1 w1 where r: "r = (x, s1, w1)" by (cases r)
    show ?thesis
    proof (cases x)
      case (Yield z)
      with Some r Suc.prems obtain ys' where
        rest: "draw (dropWhile_next (logged p) (traced nxt)) m (Suspended (False, s1))
           (tr0 @ [Advance (Yield z)], w1) = Some (ys', (tr, w'))" and
        ys: "ys = z # ys'"
        by (auto simp add: dropWhile_next_passing split: option.splits)
      from Suc.IH [OF rest] obtain tr1 where
        "tr = (tr0 @ [Advance (Yield z)]) @ tr1" "passed tr1 ys'"
        by blast
      with ys show ?thesis by simp
    next
      case Done
      with Some r Suc.prems show ?thesis
        by (auto simp add: dropWhile_next_passing)
    next
      case (Throw e)
      with Some r Suc.prems show ?thesis
        by (auto simp add: dropWhile_next_passing)
    qed
  qed
qed

text \<open>
  One \<open>next()\<close> of a cursor of \<open>dropWhile\<close> whose flag is still true: the part \<open>tr1\<close>
  it adds to the trace, with whatever follows.
\<close>

lemma dropWhile_next_dropping:
  assumes "dropWhile_next pred nxt g W = Some y"
  shows "\<forall>p nx s tr0 w r g' tr w'.
    pred = logged p \<longrightarrow> nxt = traced nx \<longrightarrow> g = Suspended (True, s) \<longrightarrow> W = (tr0, w) \<longrightarrow>
    y = (r, g', (tr, w')) \<longrightarrow>
    (\<exists>tr1. tr = tr0 @ tr1 \<and>
       (case r of
          Yield x \<Rightarrow> (\<exists>s'. g' = Suspended (False, s')) \<and>
             (\<forall>rest ys. passed rest ys \<longrightarrow> dropWhile_run (tr1 @ rest) (x # ys))
        | _ \<Rightarrow> dropWhile_run tr1 []))"
proof (rule dropWhile_next.raw_induct [OF _ assms], goal_cases)
  case (1 rec pred nxt g W y)
  show ?case
  proof (intro allI impI)
    fix p nx s tr0 w r g' tr w'
    assume eqs: "pred = logged p" "nxt = traced nx" "g = Suspended (True, s)" "W = (tr0, w)"
      "y = (r, g', (tr, w'))"
    show "\<exists>tr1. tr = tr0 @ tr1 \<and>
       (case r of
          Yield x \<Rightarrow> (\<exists>s'. g' = Suspended (False, s')) \<and>
             (\<forall>rest ys. passed rest ys \<longrightarrow> dropWhile_run (tr1 @ rest) (x # ys))
        | _ \<Rightarrow> dropWhile_run tr1 [])"
    proof (cases "nx s w")
      case None
      with 1(2) eqs show ?thesis by (simp add: traced_def)
    next
      case (Some a)
      obtain x s1 w1 where a: "a = (x, s1, w1)" by (cases a)
      show ?thesis
      proof (cases x)
        case (Yield z)
        obtain v w2 where p: "p [z] w1 = (v, w2)" by (cases "p [z] w1")
        show ?thesis
        proof (cases "truthy v")
          case True
          with 1(2) eqs Some a Yield p
          have "rec (logged p) (traced nx) (Suspended (True, s1))
              (tr0 @ [Advance (Yield z), Call [z] v], w2) = Some (r, g', (tr, w'))"
            by (simp add: traced_def logged_def)
          from 1(1) [OF this, rule_format, OF refl refl refl refl refl]
          obtain tr1 where tr1: "tr = (tr0 @ [Advance (Yield z), Call [z] v]) @ tr1"
            "(case r of
                Yield x \<Rightarrow> (\<exists>s'. g' = Suspended (False, s')) \<and>
                  (\<forall>rest ys. passed rest ys \<longrightarrow> dropWhile_run (tr1 @ rest) (x # ys))
              | _ \<Rightarrow> dropWhile_run tr1 [])"
            by blast
          show ?thesis
          proof (intro exI conjI)
            show "tr = tr0 @ ([Advance (Yield z), Call [z] v] @ tr1)"
              using tr1(1) by simp
            show "case r of
                Yield x \<Rightarrow> (\<exists>s'. g' = Suspended (False, s')) \<and>
                  (\<forall>rest ys. passed rest ys \<longrightarrow>
                     dropWhile_run (([Advance (Yield z), Call [z] v] @ tr1) @ rest) (x # ys))
              | _ \<Rightarrow> dropWhile_run ([Advance (Yield z), Call [z] v] @ tr1) []"
              using tr1(2) True by (cases r) simp_all
          qed
        next
          case False
          with 1(2) eqs Some a Yield p
          have "r = Yield z" "g' = Suspended (False, s1)"
            "tr = tr0 @ [Advance (Yield z), Call [z] v]"
            by (auto simp add: traced_def logged_def)
          with False show ?thesis by simp
        qed
      next
        case Done
        with 1(2) eqs Some a have "r = Done" "tr = tr0 @ [Advance Done]"
          by (auto simp add: traced_def)
        then show ?thesis by simp
      next
        case (Throw e)
        with 1(2) eqs Some a have "r = Throw e" "tr = tr0 @ [Advance (Throw e)]"
          by (auto simp add: traced_def)
        then show ?thesis by simp
      qed
    qed
  qed
qed

lemma draw_dropWhile_run:
  assumes "draw (dropWhile_next (logged p) (traced nxt)) m (Suspended (True, s)) ([], w) =
     Some (ys, (tr, w'))"
  shows "dropWhile_run tr ys"
proof (cases m)
  case 0
  with assms show ?thesis by simp
next
  case (Suc m')
  show ?thesis
  proof (cases "dropWhile_next (logged p) (traced nxt) (Suspended (True, s)) ([], w)")
    case None
    with assms Suc show ?thesis by simp
  next
    case (Some y)
    obtain r g' tra wa where y: "y = (r, g', (tra, wa))" by (cases y) auto
    from dropWhile_next_dropping [OF Some, rule_format, OF refl refl refl refl y]
    obtain tr1 where tr1: "tra = [] @ tr1"
      "(case r of
          Yield x \<Rightarrow> (\<exists>s'. g' = Suspended (False, s')) \<and>
            (\<forall>rest ys. passed rest ys \<longrightarrow> dropWhile_run (tr1 @ rest) (x # ys))
        | _ \<Rightarrow> dropWhile_run tr1 [])"
      by blast
    show ?thesis
    proof (cases r)
      case (Yield x)
      with tr1(2) obtain s' where g': "g' = Suspended (False, s')" and
        cont: "\<And>rest ys. passed rest ys \<Longrightarrow> dropWhile_run (tr1 @ rest) (x # ys)"
        by auto
      from assms Suc Some y Yield g' tr1(1) obtain ys' where
        rest: "draw (dropWhile_next (logged p) (traced nxt)) m' (Suspended (False, s')) (tr1, wa) =
          Some (ys', (tr, w'))" and ys: "ys = x # ys'"
        by (auto split: option.splits)
      from draw_dropWhile_passed [OF rest] obtain tr2 where "tr = tr1 @ tr2" "passed tr2 ys'"
        by blast
      with cont ys show ?thesis by simp
    next
      case Done
      with assms Suc Some y tr1 show ?thesis by auto
    next
      case (Throw e)
      with assms Suc Some y tr1 show ?thesis by auto
    qed
  qed
qed

lemma takeWhile_run_tested_once: "takeWhile_run tr ys \<Longrightarrow> tested_once tr"
  by (induction tr ys rule: takeWhile_run.induct)
    (auto simp add: tested_once_def split: list.splits if_splits)

lemma passed_no_calls: "passed tr ys \<Longrightarrow> calls tr = []"
  by (induction tr ys rule: passed.induct) (auto split: list.splits)

lemma dropWhile_run_tested_once: "dropWhile_run tr ys \<Longrightarrow> tested_once tr"
  by (induction tr ys rule: dropWhile_run.induct)
    (auto simp add: tested_once_def passed_no_calls split: list.splits if_splits)

text \<open>
  C10. Whatever the origin, the predicate \<open>p\<close> and the number of elements asked for: the
  trace of a cursor of \<open>takeWhile(p)\<close> is a \<open>takeWhile_run\<close>, that of a cursor of
  \<open>dropWhile(p)\<close> a \<open>dropWhile_run\<close>. So \<open>p\<close> is called at most once for each element
  taken from the origin, and not again after an answer that counts as false:
  \<open>takeWhile\<close> ends there, without another \<open>next()\<close> of the origin, and \<open>dropWhile\<close>
  hands out that element and all later ones untested.
\<close>

theorem takeWhile_dropWhile_test_once:
  "(takeWhile_lazy (Fun (logged p)) (observed this) = Inr T \<and>
    draw (advance T) m (start T) ([], w) = Some (ys, (tr, w')) \<longrightarrow>
      takeWhile_run tr ys \<and> tested_once tr) \<and>
   (dropWhile_lazy (Fun (logged q)) (observed that) = Inr D \<and>
    draw (advance D) k (start D) ([], v) = Some (zs, (tq, v')) \<longrightarrow>
      dropWhile_run tq zs \<and> tested_once tq)"
proof (intro conjI impI; elim conjE)
  assume "takeWhile_lazy (Fun (logged p)) (observed this) = Inr T"
    and "draw (advance T) m (start T) ([], w) = Some (ys, (tr, w'))"
  then have "draw (takeWhile_next (logged p) (traced (advance this))) m
      (Suspended (True, start this)) ([], w) = Some (ys, (tr, w'))"
    by (auto simp add: takeWhile_lazy_def new_Lazy_def observed_def)
  from draw_takeWhile_run [OF this] have "takeWhile_run tr ys"
    by simp
  then show "takeWhile_run tr ys" "tested_once tr"
    by (simp_all add: takeWhile_run_tested_once)
next
  assume "dropWhile_lazy (Fun (logged q)) (observed that) = Inr D"
    and "draw (advance D) k (start D) ([], v) = Some (zs, (tq, v'))"
  then have "draw (dropWhile_next (logged q) (traced (advance that))) k
      (Suspended (True, start that)) ([], v) = Some (zs, (tq, v'))"
    by (auto simp add: dropWhile_lazy_def new_Lazy_def observed_def)
  from draw_dropWhile_run [OF this] show "dropWhile_run tq zs" "tested_once tq"
    by (simp_all add: dropWhile_run_tested_once)
qed

theorem takeWhile_dropWhile_test_once_witness:
  "takeWhile_lazy (Fun (logged (pure below_4000000))) (observed (new_Lazy 3999999 naturals_next (Some True) :: (int, unit) Lazy)) =
     Inr (new_Lazy (Suspended (True, 3999999)) (takeWhile_next (logged (pure below_4000000)) (traced naturals_next)) (Some False)
       :: ((bool \<times> int) gen, event list \<times> unit) Lazy) \<and>
   draw (advance (new_Lazy (Suspended (True, 3999999)) (takeWhile_next (logged (pure below_4000000)) (traced naturals_next)) (Some False)
       :: ((bool \<times> int) gen, event list \<times> unit) Lazy)) 3
     (start (new_Lazy (Suspended (True, 3999999)) (takeWhile_next (logged (pure below_4000000)) (traced naturals_next)) (Some False)
       :: ((bool \<times> int) gen, event list \<times> unit) Lazy)) ([], ()) =
     Some ([Num 3999999],
      ([Advance (Yield (Num 3999999)), Call [Num 3999999] (Boolean True),
       Advance (Yield (Num 4000000)), Call [Num 4000000] (Boolean False)], ())) \<and>
   takeWhile_run
      [Advance (Yield (Num 3999999)), Call [Num 3999999] (Boolean True),
       Advance (Yield (Num 4000000)), Call [Num 4000000] (Boolean False)] [Num 3999999] \<and>
   tested_once
      [Advance (Yield (Num 3999999)), Call [Num 3999999] (Boolean True),
       Advance (Yield (Num 4000000)), Call [Num 4000000] (Boolean False)] \<and>
   dropWhile_lazy (Fun (logged (pure below_4000000))) (observed (new_Lazy 3999999 naturals_next (Some True) :: (int, unit) Lazy)) =
     Inr (new_Lazy (Suspended (True, 3999999)) (dropWhile_next (logged (pure below_4000000)) (traced naturals_next)) (Some True)
       :: ((bool \<times> int) gen, event list \<times> unit) Lazy) \<and>
   draw (advance (new_Lazy (Suspended (True, 3999999)) (dropWhile_next (logged (pure below_4000000)) (traced naturals_next)) (Some True)
       :: ((bool \<times> int) gen, event list \<times> unit) Lazy)) 2
     (start (new_Lazy (Suspended (True, 3999999)) (dropWhile_next (logged (pure below_4000000)) (traced naturals_next)) (Some True)
       :: ((bool \<times> int) gen, event list \<times> unit) Lazy)) ([], ()) =
     Some ([Num 4000000, Num 4000001],
      ([Advance (Yield (Num 3999999)), Call [Num 3999999] (Boolean True),
       Advance (Yield (Num 4000000)), Call [Num 4000000] (Boolean False),
       Advance (Yield (Num 4000001))], ())) \<and>
   dropWhile_run
      [Advance (Yield (Num 3999999)), Call [Num 3999999] (Boolean True),
       Advance (Yield (Num 4000000)), Call [Num 4000000] (Boolean False),
       Advance (Yield (Num 4000001))] [Num 4000000, Num 4000001] \<and>
   tested_once
      [Advance (Yield (Num 3999999)), Call [Num 3999999] (Boolean True),
       Advance (Yield (Num 4000000)), Call [Num 4000000] (Boolean False),
       Advance (Yield (Num 4000001))]"
proof -
  have t: "takeWhile_lazy (Fun (logged (pure below_4000000))) (observed (new_Lazy 3999999 naturals_next (Some True) :: (int, unit) Lazy)) =
     Inr (new_Lazy (Suspended (True, 3999999)) (takeWhile_next (logged (pure below_4000000)) (traced naturals_next)) (Some False)
       :: ((bool \<times> int) gen, event list \<times> unit) Lazy)"
    by (simp add: takeWhile_lazy_def observed_def new_Lazy_def)
  have dt: "draw (advance (new_Lazy (Suspended (True, 3999999)) (takeWhile_next (logged (pure below_4000000)) (traced naturals_next)) (Some False)
       :: ((bool \<times> int) gen, event list \<times> unit) Lazy)) 3
     (start (new_Lazy (Suspended (True, 3999999)) (takeWhile_next (logged (pure below_4000000)) (traced naturals_next)) (Some False)
       :: ((bool \<times> int) gen, event list \<times> unit) Lazy)) ([], ()) =
     Some ([Num 3999999],
      ([Advance (Yield (Num 3999999)), Call [Num 3999999] (Boolean True),
       Advance (Yield (Num 4000000)), Call [Num 4000000] (Boolean False)], ()))"
    by (simp add: new_Lazy_def numeral_3_eq_3 takeWhile_next_logged naturals_next_def pure_def
        below_4000000_def)
  have d: "dropWhile_lazy (Fun (logged (pure below_4000000))) (observed (new_Lazy 3999999 naturals_next (Some True) :: (int, unit) Lazy)) =
     Inr (new_Lazy (Suspended (True, 3999999)) (dropWhile_next (logged (pure below_4000000)) (traced naturals_next)) (Some True)
       :: ((bool \<times> int) gen, event list \<times> unit) Lazy)"
    by (simp add: dropWhile_lazy_def observed_def new_Lazy_def)
  have dd: "draw (advance (new_Lazy (Suspended (True, 3999999)) (dropWhile_next (logged (pure below_4000000)) (traced naturals_next)) (Some True)
       :: ((bool \<times> int) gen, event list \<times> unit) Lazy)) 2
     (start (new_Lazy (Suspended (True, 3999999)) (dropWhile_next (logged (pure below_4000000)) (traced naturals_next)) (Some True)
       :: ((bool \<times> int) gen, event list \<times> unit) Lazy)) ([], ()) =
     Some ([Num 4000000, Num 4000001],
      ([Advance (Yield (Num 3999999)), Call [Num 3999999] (Boolean True),
       Advance (Yield (Num 4000000)), Call [Num 4000000] (Boolean False),
       Advance (Yield (Num 4000001))], ()))"
    by (simp add: new_Lazy_def numeral_2_eq_2 dropWhile_next.simps traced_def logged_def
        naturals_next_def pure_def below_4000000_def)
  from takeWhile_dropWhile_test_once [of "pure below_4000000" "new_Lazy 3999999 naturals_next (Some True) :: (int, unit) Lazy" _ 3 "()" _ _ "()"
      "pure below_4000000" "new_Lazy 3999999 naturals_next (Some True) :: (int, unit) Lazy" _ 2 "()" _ _ "()"] t dt d dd
  show ?thesis
    by blast
qed

subsection \<open>The arguments of the callbacks of \<open>map\<close> and \<open>filter\<close>\<close>

lemma results_block:
  "results (Advance r # Call args v # tr) = v # results tr"
  by (simp add: results_def)

lemma map_next_logged:
  "map_next (logged f) (traced nxt) (Suspended s) (tr0, w) =
     (case nxt s w of
        None \<Rightarrow> None
      | Some (Yield x, s1, w1) \<Rightarrow>
          (case f [x] w1 of (v, w2) \<Rightarrow>
             Some (Yield v, Suspended s1, (tr0 @ [Advance (Yield x), Call [x] v], w2)))
      | Some (Done, s1, w1) \<Rightarrow> Some (Done, Completed, (tr0 @ [Advance Done], w1))
      | Some (Throw e, s1, w1) \<Rightarrow> Some (Throw e, Completed, (tr0 @ [Advance (Throw e)], w1)))"
  by (simp add: map_next_def traced_def logged_def split: option.split step.split prod.split)

lemma map_draft_next_logged:
  "map_draft_next (logged f) (traced nxt) (Suspended (i, s)) (tr0, w) =
     (case nxt s w of
        None \<Rightarrow> None
      | Some (Yield x, s1, w1) \<Rightarrow>
          (case f [x, Num (int i)] w1 of (v, w2) \<Rightarrow>
             Some (Yield v, Suspended (i + 1, s1),
               (tr0 @ [Advance (Yield x), Call [x, Num (int i)] v], w2)))
      | Some (Done, s1, w1) \<Rightarrow> Some (Done, Completed, (tr0 @ [Advance Done], w1))
      | Some (Throw e, s1, w1) \<Rightarrow> Some (Throw e, Completed, (tr0 @ [Advance (Throw e)], w1)))"
  by (simp add: map_draft_next_def traced_def logged_def split: option.split step.split prod.split)

lemma draw_map_run:
  "draw (map_next (logged f) (traced nxt)) m (Suspended s) (tr0, w) = Some (ys, (tr, w')) \<Longrightarrow>
   \<exists>tr1. tr = tr0 @ tr1 \<and> callback_run False i tr1 \<and> ys = results tr1"
proof (induction m arbitrary: s tr0 w ys i)
  case 0
  then show ?case by (simp add: results_def)
next
  case (Suc m)
  show ?case
  proof (cases "nxt s w")
    case None
    with Suc.prems show ?thesis
      by (simp add: map_next_logged)
  next
    case (Some r)
    obtain x s1 w1 where r: "r = (x, s1, w1)" by (cases r)
    show ?thesis
    proof (cases x)
      case (Yield z)
      obtain v w2 where f: "f [z] w1 = (v, w2)" by (cases "f [z] w1")
      with Some r Yield Suc.prems obtain ys' where
        rest: "draw (map_next (logged f) (traced nxt)) m (Suspended s1)
           (tr0 @ [Advance (Yield z), Call [z] v], w2) = Some (ys', (tr, w'))" and
        ys: "ys = v # ys'"
        by (auto simp add: map_next_logged split: option.splits)
      from Suc.IH [OF rest, of "Suc i"] obtain tr1 where
        "tr = (tr0 @ [Advance (Yield z), Call [z] v]) @ tr1"
        "callback_run False (Suc i) tr1" "ys' = results tr1"
        by blast
      with ys show ?thesis
        by (simp add: results_block)
    next
      case Done
      with Some r Suc.prems show ?thesis
        by (auto simp add: map_next_logged results_def)
    next
      case (Throw e)
      with Some r Suc.prems show ?thesis
        by (auto simp add: map_next_logged results_def)
    qed
  qed
qed

lemma draw_map_draft_run:
  "draw (map_draft_next (logged f) (traced nxt)) m (Suspended (i, s)) (tr0, w) =
     Some (ys, (tr, w')) \<Longrightarrow>
   \<exists>tr1. tr = tr0 @ tr1 \<and> callback_run True i tr1 \<and> ys = results tr1"
proof (induction m arbitrary: s tr0 w ys i)
  case 0
  then show ?case by (simp add: results_def)
next
  case (Suc m)
  show ?case
  proof (cases "nxt s w")
    case None
    with Suc.prems show ?thesis
      by (simp add: map_draft_next_logged)
  next
    case (Some r)
    obtain x s1 w1 where r: "r = (x, s1, w1)" by (cases r)
    show ?thesis
    proof (cases x)
      case (Yield z)
      obtain v w2 where f: "f [z, Num (int i)] w1 = (v, w2)" by (cases "f [z, Num (int i)] w1")
      with Some r Yield Suc.prems obtain ys' where
        rest: "draw (map_draft_next (logged f) (traced nxt)) m (Suspended (Suc i, s1))
           (tr0 @ [Advance (Yield z), Call [z, Num (int i)] v], w2) = Some (ys', (tr, w'))" and
        ys: "ys = v # ys'"
        by (auto simp add: map_draft_next_logged split: option.splits)
      from Suc.IH [OF rest] obtain tr1 where
        "tr = (tr0 @ [Advance (Yield z), Call [z, Num (int i)] v]) @ tr1"
        "callback_run True (Suc i) tr1" "ys' = results tr1"
        by blast
      with ys show ?thesis
        by (simp add: results_block)
    next
      case Done
      with Some r Suc.prems show ?thesis
        by (auto simp add: map_draft_next_logged results_def)
    next
      case (Throw e)
      with Some r Suc.prems show ?thesis
        by (auto simp add: map_draft_next_logged results_def)
    qed
  qed
qed


lemma callback_run_no_index: "callback_run False i tr = callback_run False j tr"
proof (induction tr arbitrary: i j rule: length_induct)
  case (1 tr)
  show ?case
  proof (cases "\<exists>x args v rest. tr = Advance (Yield x) # Call args v # rest")
    case True
    then obtain x args v rest where tr: "tr = Advance (Yield x) # Call args v # rest"
      by blast
    then have "length rest < length tr" by simp
    with 1 have "callback_run False (Suc i) rest = callback_run False (Suc j) rest"
      by blast
    with tr show ?thesis by simp
  next
    case False
    then show ?thesis
      by (cases "(False, i, tr)" rule: callback_run.cases; cases "(False, j, tr)" rule: callback_run.cases)
        auto
  qed
qed

lemma kept_Nil [simp]: "kept [] = []"
  by (simp add: kept_def)

lemma kept_end [simp]: "kept [Advance r] = []"
  by (simp add: kept_def)

lemma kept_block_append:
  "kept ((Advance r # Call (x # xs) v # tr) @ rest) =
     (if truthy v then x # kept (tr @ rest) else kept (tr @ rest))"
  by (simp add: kept_def)

text \<open>One \<open>next()\<close> of a cursor of \<open>filter\<close>: what it adds to the trace.\<close>

lemma filter_next_trace:
  assumes "filter_next pred nxt g W = Some y"
  shows "\<forall>p nx s tr0 w r g' tr w'.
    pred = logged p \<longrightarrow> nxt = traced nx \<longrightarrow> g = Suspended s \<longrightarrow> W = (tr0, w) \<longrightarrow>
    y = (r, g', (tr, w')) \<longrightarrow>
    (\<exists>tr1. tr = tr0 @ tr1 \<and>
       (case r of
          Yield x \<Rightarrow> (\<exists>s'. g' = Suspended s') \<and>
             (\<forall>rest. kept (tr1 @ rest) = x # kept rest) \<and>
             (\<forall>rest. callback_run False 0 rest \<longrightarrow> callback_run False 0 (tr1 @ rest))
        | _ \<Rightarrow> kept tr1 = [] \<and> callback_run False 0 tr1))"
proof (rule filter_next.raw_induct [OF _ assms], goal_cases)
  case (1 rec pred nxt g W y)
  show ?case
  proof (intro allI impI)
    fix p nx s tr0 w r g' tr w'
    assume eqs: "pred = logged p" "nxt = traced nx" "g = Suspended s" "W = (tr0, w)"
      "y = (r, g', (tr, w'))"
    show "\<exists>tr1. tr = tr0 @ tr1 \<and>
       (case r of
          Yield x \<Rightarrow> (\<exists>s'. g' = Suspended s') \<and>
             (\<forall>rest. kept (tr1 @ rest) = x # kept rest) \<and>
             (\<forall>rest. callback_run False 0 rest \<longrightarrow> callback_run False 0 (tr1 @ rest))
        | _ \<Rightarrow> kept tr1 = [] \<and> callback_run False 0 tr1)"
    proof (cases "nx s w")
      case None
      with 1(2) eqs show ?thesis by (simp add: traced_def)
    next
      case (Some a)
      obtain x s1 w1 where a: "a = (x, s1, w1)" by (cases a)
      show ?thesis
      proof (cases x)
        case (Yield z)
        obtain v w2 where p: "p [z] w1 = (v, w2)" by (cases "p [z] w1")
        show ?thesis
        proof (cases "truthy v")
          case False
          with 1(2) eqs Some a Yield p
          have "rec (logged p) (traced nx) (Suspended s1)
              (tr0 @ [Advance (Yield z), Call [z] v], w2) = Some (r, g', (tr, w'))"
            by (simp add: traced_def logged_def)
          from 1(1) [OF this, rule_format, OF refl refl refl refl refl]
          obtain tr1 where tr1: "tr = (tr0 @ [Advance (Yield z), Call [z] v]) @ tr1"
            "(case r of
                Yield x \<Rightarrow> (\<exists>s'. g' = Suspended s') \<and>
                   (\<forall>rest. kept (tr1 @ rest) = x # kept rest) \<and>
                   (\<forall>rest. callback_run False 0 rest \<longrightarrow> callback_run False 0 (tr1 @ rest))
              | _ \<Rightarrow> kept tr1 = [] \<and> callback_run False 0 tr1)"
            by blast
          have idx: "callback_run False (Suc 0) t = callback_run False 0 t" for t
            by (rule callback_run_no_index)
          show ?thesis
          proof (intro exI conjI)
            show "tr = tr0 @ ([Advance (Yield z), Call [z] v] @ tr1)"
              using tr1(1) by simp
            show "case r of
                Yield x \<Rightarrow> (\<exists>s'. g' = Suspended s') \<and>
                   (\<forall>rest. kept (([Advance (Yield z), Call [z] v] @ tr1) @ rest) = x # kept rest) \<and>
                   (\<forall>rest. callback_run False 0 rest \<longrightarrow>
                      callback_run False 0 (([Advance (Yield z), Call [z] v] @ tr1) @ rest))
              | _ \<Rightarrow> kept ([Advance (Yield z), Call [z] v] @ tr1) = [] \<and>
                   callback_run False 0 ([Advance (Yield z), Call [z] v] @ tr1)"
              using tr1(2) False kept_block_append [of "Yield z" z "[]" v "[]" ]
                kept_block_append [of "Yield z" z "[]" v "[]" "tr1 @ rest" for rest]
              by (cases r) (simp_all add: idx)
          qed
        next
          case True
          with 1(2) eqs Some a Yield p
          have "r = Yield z" "g' = Suspended s1"
            "tr = tr0 @ [Advance (Yield z), Call [z] v]"
            by (auto simp add: traced_def logged_def)
          with True kept_block_append [of "Yield z" z "[]" v "[]"] show ?thesis
            by (simp add: callback_run_no_index [of "Suc 0" _ 0])
        qed
      next
        case Done
        with 1(2) eqs Some a have "r = Done" "tr = tr0 @ [Advance Done]"
          by (auto simp add: traced_def)
        then show ?thesis by simp
      next
        case (Throw e)
        with 1(2) eqs Some a have "r = Throw e" "tr = tr0 @ [Advance (Throw e)]"
          by (auto simp add: traced_def)
        then show ?thesis by simp
      qed
    qed
  qed
qed


lemma draw_filter_run:
  "draw (filter_next (logged p) (traced nxt)) m (Suspended s) (tr0, w) = Some (ys, (tr, w')) \<Longrightarrow>
   \<exists>tr1. tr = tr0 @ tr1 \<and> callback_run False 0 tr1 \<and> ys = kept tr1"
proof (induction m arbitrary: s tr0 w ys)
  case 0
  then show ?case by simp
next
  case (Suc m)
  show ?case
  proof (cases "filter_next (logged p) (traced nxt) (Suspended s) (tr0, w)")
    case None
    with Suc.prems show ?thesis by simp
  next
    case (Some y)
    obtain r g' tra wa where y: "y = (r, g', (tra, wa))" by (cases y) auto
    from filter_next_trace [OF Some, rule_format, OF refl refl refl refl y]
    obtain tr1 where tr1: "tra = tr0 @ tr1"
      "(case r of
          Yield x \<Rightarrow> (\<exists>s'. g' = Suspended s') \<and>
             (\<forall>rest. kept (tr1 @ rest) = x # kept rest) \<and>
             (\<forall>rest. callback_run False 0 rest \<longrightarrow> callback_run False 0 (tr1 @ rest))
        | _ \<Rightarrow> kept tr1 = [] \<and> callback_run False 0 tr1)"
      by blast
    show ?thesis
    proof (cases r)
      case (Yield x)
      with tr1(2) obtain s' where g': "g' = Suspended s'" and
        k: "\<And>rest. kept (tr1 @ rest) = x # kept rest" and
        c: "\<And>rest. callback_run False 0 rest \<Longrightarrow> callback_run False 0 (tr1 @ rest)"
        by auto
      from Suc.prems Some y Yield g' tr1(1) obtain ys' where
        rest: "draw (filter_next (logged p) (traced nxt)) m (Suspended s') (tr0 @ tr1, wa) =
          Some (ys', (tr, w'))" and ys: "ys = x # ys'"
        by (auto split: option.splits)
      from Suc.IH [OF rest] obtain tr2 where
        "tr = (tr0 @ tr1) @ tr2" "callback_run False 0 tr2" "ys' = kept tr2"
        by blast
      with k c ys show ?thesis by simp
    next
      case Done
      with Suc.prems Some y tr1 show ?thesis by auto
    next
      case (Throw e)
      with Suc.prems Some y tr1 show ?thesis by auto
    qed
  qed
qed

text \<open>The same for the second version's \<open>filter\<close>, whose cursor counts.\<close>

lemma filter_draft_next_trace:
  assumes "filter_draft_next pred nxt g W = Some y"
  shows "\<forall>p nx i s tr0 w r g' tr w'.
    pred = logged p \<longrightarrow> nxt = traced nx \<longrightarrow> g = Suspended (i, s) \<longrightarrow> W = (tr0, w) \<longrightarrow>
    y = (r, g', (tr, w')) \<longrightarrow>
    (\<exists>tr1. tr = tr0 @ tr1 \<and>
       (case r of
          Yield x \<Rightarrow> (\<forall>rest. kept (tr1 @ rest) = x # kept rest) \<and>
             (\<exists>j s'. g' = Suspended (j, s') \<and>
                (\<forall>rest. callback_run True j rest \<longrightarrow> callback_run True i (tr1 @ rest)))
        | _ \<Rightarrow> kept tr1 = [] \<and> callback_run True i tr1))"
proof (rule filter_draft_next.raw_induct [OF _ assms], goal_cases)
  case (1 rec pred nxt g W y)
  show ?case
  proof (intro allI impI)
    fix p nx i s tr0 w r g' tr w'
    assume eqs: "pred = logged p" "nxt = traced nx" "g = Suspended (i, s)" "W = (tr0, w)"
      "y = (r, g', (tr, w'))"
    show "\<exists>tr1. tr = tr0 @ tr1 \<and>
       (case r of
          Yield x \<Rightarrow> (\<forall>rest. kept (tr1 @ rest) = x # kept rest) \<and>
             (\<exists>j s'. g' = Suspended (j, s') \<and>
                (\<forall>rest. callback_run True j rest \<longrightarrow> callback_run True i (tr1 @ rest)))
        | _ \<Rightarrow> kept tr1 = [] \<and> callback_run True i tr1)"
    proof (cases "nx s w")
      case None
      with 1(2) eqs show ?thesis by (simp add: traced_def)
    next
      case (Some a)
      obtain x s1 w1 where a: "a = (x, s1, w1)" by (cases a)
      show ?thesis
      proof (cases x)
        case (Yield z)
        obtain v w2 where p: "p [z, Num (int i)] w1 = (v, w2)"
          by (cases "p [z, Num (int i)] w1")
        show ?thesis
        proof (cases "truthy v")
          case False
          with 1(2) eqs Some a Yield p
          have "rec (logged p) (traced nx) (Suspended (Suc i, s1))
              (tr0 @ [Advance (Yield z), Call [z, Num (int i)] v], w2) = Some (r, g', (tr, w'))"
            by (simp add: traced_def logged_def)
          from 1(1) [OF this, rule_format, OF refl refl refl refl refl]
          obtain tr1 where tr1: "tr = (tr0 @ [Advance (Yield z), Call [z, Num (int i)] v]) @ tr1"
            "(case r of
                Yield x \<Rightarrow> (\<forall>rest. kept (tr1 @ rest) = x # kept rest) \<and>
                   (\<exists>j s'. g' = Suspended (j, s') \<and>
                      (\<forall>rest. callback_run True j rest \<longrightarrow> callback_run True (Suc i) (tr1 @ rest)))
              | _ \<Rightarrow> kept tr1 = [] \<and> callback_run True (Suc i) tr1)"
            by blast
          show ?thesis
          proof (intro exI conjI)
            show "tr = tr0 @ ([Advance (Yield z), Call [z, Num (int i)] v] @ tr1)"
              using tr1(1) by simp
            show "case r of
                Yield x \<Rightarrow>
                   (\<forall>rest. kept (([Advance (Yield z), Call [z, Num (int i)] v] @ tr1) @ rest) =
                      x # kept rest) \<and>
                   (\<exists>j s'. g' = Suspended (j, s') \<and>
                      (\<forall>rest. callback_run True j rest \<longrightarrow>
                         callback_run True i
                           (([Advance (Yield z), Call [z, Num (int i)] v] @ tr1) @ rest)))
              | _ \<Rightarrow> kept ([Advance (Yield z), Call [z, Num (int i)] v] @ tr1) = [] \<and>
                   callback_run True i ([Advance (Yield z), Call [z, Num (int i)] v] @ tr1)"
              using tr1(2) False kept_block_append [of "Yield z" z "[Num (int i)]" v "[]" ]
                kept_block_append [of "Yield z" z "[Num (int i)]" v "[]" "tr1 @ rest" for rest]
              by (cases r) simp_all
          qed
        next
          case True
          with 1(2) eqs Some a Yield p
          have "r = Yield z" "g' = Suspended (Suc i, s1)"
            "tr = tr0 @ [Advance (Yield z), Call [z, Num (int i)] v]"
            by (auto simp add: traced_def logged_def)
          with True kept_block_append [of "Yield z" z "[Num (int i)]" v "[]"] show ?thesis
            by simp
        qed
      next
        case Done
        with 1(2) eqs Some a have "r = Done" "tr = tr0 @ [Advance Done]"
          by (auto simp add: traced_def)
        then show ?thesis by simp
      next
        case (Throw e)
        with 1(2) eqs Some a have "r = Throw e" "tr = tr0 @ [Advance (Throw e)]"
          by (auto simp add: traced_def)
        then show ?thesis by simp
      qed
    qed
  qed
qed

lemma draw_filter_draft_run:
  "draw (filter_draft_next (logged p) (traced nxt)) m (Suspended (i, s)) (tr0, w) =
     Some (ys, (tr, w')) \<Longrightarrow>
   \<exists>tr1. tr = tr0 @ tr1 \<and> callback_run True i tr1 \<and> ys = kept tr1"
proof (induction m arbitrary: i s tr0 w ys)
  case 0
  then show ?case by simp
next
  case (Suc m)
  show ?case
  proof (cases "filter_draft_next (logged p) (traced nxt) (Suspended (i, s)) (tr0, w)")
    case None
    with Suc.prems show ?thesis by simp
  next
    case (Some y)
    obtain r g' tra wa where y: "y = (r, g', (tra, wa))" by (cases y) auto
    from filter_draft_next_trace [OF Some, rule_format, OF refl refl refl refl y]
    obtain tr1 where tr1: "tra = tr0 @ tr1"
      "(case r of
          Yield x \<Rightarrow> (\<forall>rest. kept (tr1 @ rest) = x # kept rest) \<and>
             (\<exists>j s'. g' = Suspended (j, s') \<and>
                (\<forall>rest. callback_run True j rest \<longrightarrow> callback_run True i (tr1 @ rest)))
        | _ \<Rightarrow> kept tr1 = [] \<and> callback_run True i tr1)"
      by blast
    show ?thesis
    proof (cases r)
      case (Yield x)
      with tr1(2) obtain j s' where g': "g' = Suspended (j, s')" and
        k: "\<And>rest. kept (tr1 @ rest) = x # kept rest" and
        c: "\<And>rest. callback_run True j rest \<Longrightarrow> callback_run True i (tr1 @ rest)"
        by auto
      from Suc.prems Some y Yield g' tr1(1) obtain ys' where
        rest: "draw (filter_draft_next (logged p) (traced nxt)) m (Suspended (j, s'))
          (tr0 @ tr1, wa) = Some (ys', (tr, w'))" and ys: "ys = x # ys'"
        by (auto split: option.splits)
      from Suc.IH [OF rest] obtain tr2 where
        "tr = (tr0 @ tr1) @ tr2" "callback_run True j tr2" "ys' = kept tr2"
        by blast
      with k c ys show ?thesis by simp
    next
      case Done
      with Suc.prems Some y tr1 show ?thesis by auto
    next
      case (Throw e)
      with Suc.prems Some y tr1 show ?thesis by auto
    qed
  qed
qed

text \<open>
  C4, as stated, fails on \<open>lazy.js\<close>: its \<open>map\<close> and \<open>filter\<close> call \<open>cb.call(ctx, k)\<close>
  and \<open>pred.call(ctx, k)\<close>. Over \<open>naturals(7)\<close> the callback is called on \<open>[7]\<close> and on
  \<open>[8]\<close>; no index is passed.
\<close>

theorem map_filter_callback_arguments_counterexample:
  "map_lazy (Fun (logged (pure isEven))) (observed (new_Lazy 7 naturals_next (Some True) :: (int, unit) Lazy)) =
     Inr (new_Lazy (Suspended 7) (map_next (logged (pure isEven)) (traced naturals_next)) (Some True)
       :: (int gen, event list \<times> unit) Lazy) \<and>
   draw (advance (new_Lazy (Suspended 7) (map_next (logged (pure isEven)) (traced naturals_next)) (Some True)
       :: (int gen, event list \<times> unit) Lazy)) 2
     (start (new_Lazy (Suspended 7) (map_next (logged (pure isEven)) (traced naturals_next)) (Some True)
       :: (int gen, event list \<times> unit) Lazy)) ([], ()) =
     Some ([Boolean False, Boolean True],
      ([Advance (Yield (Num 7)), Call [Num 7] (Boolean False),
       Advance (Yield (Num 8)), Call [Num 8] (Boolean True)], ())) \<and>
   filter_lazy (Fun (logged (pure isEven))) (observed (new_Lazy 7 naturals_next (Some True) :: (int, unit) Lazy)) =
     Inr (new_Lazy (Suspended 7) (filter_next (logged (pure isEven)) (traced naturals_next)) (Some True)
       :: (int gen, event list \<times> unit) Lazy) \<and>
   draw (advance (new_Lazy (Suspended 7) (filter_next (logged (pure isEven)) (traced naturals_next)) (Some True)
       :: (int gen, event list \<times> unit) Lazy)) 1
     (start (new_Lazy (Suspended 7) (filter_next (logged (pure isEven)) (traced naturals_next)) (Some True)
       :: (int gen, event list \<times> unit) Lazy)) ([], ()) =
     Some ([Num 8],
      ([Advance (Yield (Num 7)), Call [Num 7] (Boolean False),
       Advance (Yield (Num 8)), Call [Num 8] (Boolean True)], ())) \<and>
   \<not> callback_run True 0
      [Advance (Yield (Num 7)), Call [Num 7] (Boolean False),
       Advance (Yield (Num 8)), Call [Num 8] (Boolean True)]"
  by (simp add: map_lazy_def filter_lazy_def observed_def new_Lazy_def numeral_2_eq_2
      map_next_logged filter_next.simps traced_def logged_def naturals_next_def pure_def isEven_def)

text \<open>
  C4, amended. For every origin, callback and number of elements asked for: in \<open>lazy.js\<close>
  a cursor of \<open>map(f)\<close> or \<open>filter(p)\<close> calls the callback once for each element it takes
  from the origin, with that element as the only argument. In the second version of the
  module the callback gets two arguments, the element and its position, counted from 0,
  among the elements this cursor has taken from its origin; the count starts at 0 for
  every fresh cursor, since it is a local variable of the generator. In both, \<open>map\<close>
  hands out the results of the calls and \<open>filter\<close> the elements whose call returned
  something that counts as true.
\<close>

theorem map_filter_callback_arguments:
  "(map_lazy (Fun (logged fa)) (observed sa) = Inr La \<and>
    draw (advance La) ma (start La) ([], wa) = Some (ya, (ta, va)) \<longrightarrow>
      callback_run False 0 ta \<and> ya = results ta) \<and>
   (filter_lazy (Fun (logged fb)) (observed sb) = Inr Lb \<and>
    draw (advance Lb) mb (start Lb) ([], wb) = Some (yb, (tb, vb)) \<longrightarrow>
      callback_run False 0 tb \<and> yb = kept tb) \<and>
   (map_draft (Fun (logged fc)) (observed sc) = Inr Lc \<and>
    draw (advance Lc) mc (start Lc) ([], wc) = Some (yc, (tc, vc)) \<longrightarrow>
      callback_run True 0 tc \<and> yc = results tc) \<and>
   (filter_draft (Fun (logged fd)) (observed sd) = Inr Ld \<and>
    draw (advance Ld) md (start Ld) ([], wd) = Some (yd, (td, vd)) \<longrightarrow>
      callback_run True 0 td \<and> yd = kept td)"
proof (intro conjI impI; elim conjE)
  assume "map_lazy (Fun (logged fa)) (observed sa) = Inr La"
    and "draw (advance La) ma (start La) ([], wa) = Some (ya, (ta, va))"
  then have "draw (map_next (logged fa) (traced (advance sa))) ma (Suspended (start sa)) ([], wa) =
      Some (ya, (ta, va))"
    by (auto simp add: map_lazy_def new_Lazy_def observed_def)
  from draw_map_run [OF this, of 0] show "callback_run False 0 ta" "ya = results ta"
    by simp_all
next
  assume "filter_lazy (Fun (logged fb)) (observed sb) = Inr Lb"
    and "draw (advance Lb) mb (start Lb) ([], wb) = Some (yb, (tb, vb))"
  then have "draw (filter_next (logged fb) (traced (advance sb))) mb (Suspended (start sb)) ([], wb) =
      Some (yb, (tb, vb))"
    by (auto simp add: filter_lazy_def new_Lazy_def observed_def)
  from draw_filter_run [OF this] show "callback_run False 0 tb" "yb = kept tb"
    by simp_all
next
  assume "map_draft (Fun (logged fc)) (observed sc) = Inr Lc"
    and "draw (advance Lc) mc (start Lc) ([], wc) = Some (yc, (tc, vc))"
  then have "draw (map_draft_next (logged fc) (traced (advance sc))) mc (Suspended (0, start sc))
      ([], wc) = Some (yc, (tc, vc))"
    by (auto simp add: map_draft_def new_Lazy_def observed_def)
  from draw_map_draft_run [OF this] show "callback_run True 0 tc" "yc = results tc"
    by simp_all
next
  assume "filter_draft (Fun (logged fd)) (observed sd) = Inr Ld"
    and "draw (advance Ld) md (start Ld) ([], wd) = Some (yd, (td, vd))"
  then have "draw (filter_draft_next (logged fd) (traced (advance sd))) md (Suspended (0, start sd))
      ([], wd) = Some (yd, (td, vd))"
    by (auto simp add: filter_draft_def new_Lazy_def observed_def)
  from draw_filter_draft_run [OF this] show "callback_run True 0 td" "yd = kept td"
    by simp_all
qed

theorem map_filter_callback_arguments_witness:
  "map_lazy (Fun (logged (pure isEven))) (observed (new_Lazy 7 naturals_next (Some True) :: (int, unit) Lazy)) =
     Inr (new_Lazy (Suspended 7) (map_next (logged (pure isEven)) (traced naturals_next)) (Some True)
       :: (int gen, event list \<times> unit) Lazy) \<and>
   draw (advance (new_Lazy (Suspended 7) (map_next (logged (pure isEven)) (traced naturals_next)) (Some True)
       :: (int gen, event list \<times> unit) Lazy)) 2
     (start (new_Lazy (Suspended 7) (map_next (logged (pure isEven)) (traced naturals_next)) (Some True)
       :: (int gen, event list \<times> unit) Lazy)) ([], ()) =
     Some ([Boolean False, Boolean True],
      ([Advance (Yield (Num 7)), Call [Num 7] (Boolean False),
       Advance (Yield (Num 8)), Call [Num 8] (Boolean True)], ())) \<and>
   callback_run False 0
      [Advance (Yield (Num 7)), Call [Num 7] (Boolean False),
       Advance (Yield (Num 8)), Call [Num 8] (Boolean True)] \<and>
   [Boolean False, Boolean True] = results
      [Advance (Yield (Num 7)), Call [Num 7] (Boolean False),
       Advance (Yield (Num 8)), Call [Num 8] (Boolean True)] \<and>
   filter_lazy (Fun (logged (pure isEven))) (observed (new_Lazy 7 naturals_next (Some True) :: (int, unit) Lazy)) =
     Inr (new_Lazy (Suspended 7) (filter_next (logged (pure isEven)) (traced naturals_next)) (Some True)
       :: (int gen, event list \<times> unit) Lazy) \<and>
   draw (advance (new_Lazy (Suspended 7) (filter_next (logged (pure isEven)) (traced naturals_next)) (Some True)
       :: (int gen, event list \<times> unit) Lazy)) 1
     (start (new_Lazy (Suspended 7) (filter_next (logged (pure isEven)) (traced naturals_next)) (Some True)
       :: (int gen, event list \<times> unit) Lazy)) ([], ()) =
     Some ([Num 8],
      ([Advance (Yield (Num 7)), Call [Num 7] (Boolean False),
       Advance (Yield (Num 8)), Call [Num 8] (Boolean True)], ())) \<and>
   callback_run False 0
      [Advance (Yield (Num 7)), Call [Num 7] (Boolean False),
       Advance (Yield (Num 8)), Call [Num 8] (Boolean True)] \<and>
   [Num 8] = kept
      [Advance (Yield (Num 7)), Call [Num 7] (Boolean False),
       Advance (Yield (Num 8)), Call [Num 8] (Boolean True)] \<and>
   map_draft (Fun (logged (pure isEven))) (observed (new_Lazy 7 naturals_next (Some True) :: (int, unit) Lazy)) =
     Inr (new_Lazy (Suspended (0, 7)) (map_draft_next (logged (pure isEven)) (traced naturals_next)) None
       :: ((nat \<times> int) gen, event list \<times> unit) Lazy) \<and>
   draw (advance (new_Lazy (Suspended (0, 7)) (map_draft_next (logged (pure isEven)) (traced naturals_next)) None
       :: ((nat \<times> int) gen, event list \<times> unit) Lazy)) 2
     (start (new_Lazy (Suspended (0, 7)) (map_draft_next (logged (pure isEven)) (traced naturals_next)) None
       :: ((nat \<times> int) gen, event list \<times> unit) Lazy)) ([], ()) =
     Some ([Boolean False, Boolean True],
      ([Advance (Yield (Num 7)), Call [Num 7, Num 0] (Boolean False),
       Advance (Yield (Num 8)), Call [Num 8, Num 1] (Boolean True)], ())) \<and>
   callback_run True 0
      [Advance (Yield (Num 7)), Call [Num 7, Num 0] (Boolean False),
       Advance (Yield (Num 8)), Call [Num 8, Num 1] (Boolean True)] \<and>
   [Boolean False, Boolean True] = results
      [Advance (Yield (Num 7)), Call [Num 7, Num 0] (Boolean False),
       Advance (Yield (Num 8)), Call [Num 8, Num 1] (Boolean True)] \<and>
   filter_draft (Fun (logged (pure isEven))) (observed (new_Lazy 7 naturals_next (Some True) :: (int, unit) Lazy)) =
     Inr (new_Lazy (Suspended (0, 7)) (filter_draft_next (logged (pure isEven)) (traced naturals_next)) None
       :: ((nat \<times> int) gen, event list \<times> unit) Lazy) \<and>
   draw (advance (new_Lazy (Suspended (0, 7)) (filter_draft_next (logged (pure isEven)) (traced naturals_next)) None
       :: ((nat \<times> int) gen, event list \<times> unit) Lazy)) 1
     (start (new_Lazy (Suspended (0, 7)) (filter_draft_next (logged (pure isEven)) (traced naturals_next)) None
       :: ((nat \<times> int) gen, event list \<times> unit) Lazy)) ([], ()) =
     Some ([Num 8],
      ([Advance (Yield (Num 7)), Call [Num 7, Num 0] (Boolean False),
       Advance (Yield (Num 8)), Call [Num 8, Num 1] (Boolean True)], ())) \<and>
   callback_run True 0
      [Advance (Yield (Num 7)), Call [Num 7, Num 0] (Boolean False),
       Advance (Yield (Num 8)), Call [Num 8, Num 1] (Boolean True)] \<and>
   [Num 8] = kept
      [Advance (Yield (Num 7)), Call [Num 7, Num 0] (Boolean False),
       Advance (Yield (Num 8)), Call [Num 8, Num 1] (Boolean True)]"
proof -
  have h0: "map_lazy (Fun (logged (pure isEven))) (observed (new_Lazy 7 naturals_next (Some True) :: (int, unit) Lazy)) =
     Inr (new_Lazy (Suspended 7) (map_next (logged (pure isEven)) (traced naturals_next)) (Some True)
       :: (int gen, event list \<times> unit) Lazy)"
    by (simp add: map_lazy_def filter_lazy_def map_draft_def filter_draft_def observed_def new_Lazy_def)
  have d0: "draw (advance (new_Lazy (Suspended 7) (map_next (logged (pure isEven)) (traced naturals_next)) (Some True)
       :: (int gen, event list \<times> unit) Lazy)) 2
     (start (new_Lazy (Suspended 7) (map_next (logged (pure isEven)) (traced naturals_next)) (Some True)
       :: (int gen, event list \<times> unit) Lazy)) ([], ()) =
     Some ([Boolean False, Boolean True],
      ([Advance (Yield (Num 7)), Call [Num 7] (Boolean False),
       Advance (Yield (Num 8)), Call [Num 8] (Boolean True)], ()))"
    by (simp add: new_Lazy_def numeral_2_eq_2 map_next_logged map_draft_next_logged
        filter_next.simps filter_draft_next.simps traced_def logged_def naturals_next_def
        pure_def isEven_def)
  have h1: "filter_lazy (Fun (logged (pure isEven))) (observed (new_Lazy 7 naturals_next (Some True) :: (int, unit) Lazy)) =
     Inr (new_Lazy (Suspended 7) (filter_next (logged (pure isEven)) (traced naturals_next)) (Some True)
       :: (int gen, event list \<times> unit) Lazy)"
    by (simp add: map_lazy_def filter_lazy_def map_draft_def filter_draft_def observed_def new_Lazy_def)
  have d1: "draw (advance (new_Lazy (Suspended 7) (filter_next (logged (pure isEven)) (traced naturals_next)) (Some True)
       :: (int gen, event list \<times> unit) Lazy)) 1
     (start (new_Lazy (Suspended 7) (filter_next (logged (pure isEven)) (traced naturals_next)) (Some True)
       :: (int gen, event list \<times> unit) Lazy)) ([], ()) =
     Some ([Num 8],
      ([Advance (Yield (Num 7)), Call [Num 7] (Boolean False),
       Advance (Yield (Num 8)), Call [Num 8] (Boolean True)], ()))"
    by (simp add: new_Lazy_def numeral_2_eq_2 map_next_logged map_draft_next_logged
        filter_next.simps filter_draft_next.simps traced_def logged_def naturals_next_def
        pure_def isEven_def)
  have h2: "map_draft (Fun (logged (pure isEven))) (observed (new_Lazy 7 naturals_next (Some True) :: (int, unit) Lazy)) =
     Inr (new_Lazy (Suspended (0, 7)) (map_draft_next (logged (pure isEven)) (traced naturals_next)) None
       :: ((nat \<times> int) gen, event list \<times> unit) Lazy)"
    by (simp add: map_lazy_def filter_lazy_def map_draft_def filter_draft_def observed_def new_Lazy_def)
  have d2: "draw (advance (new_Lazy (Suspended (0, 7)) (map_draft_next (logged (pure isEven)) (traced naturals_next)) None
       :: ((nat \<times> int) gen, event list \<times> unit) Lazy)) 2
     (start (new_Lazy (Suspended (0, 7)) (map_draft_next (logged (pure isEven)) (traced naturals_next)) None
       :: ((nat \<times> int) gen, event list \<times> unit) Lazy)) ([], ()) =
     Some ([Boolean False, Boolean True],
      ([Advance (Yield (Num 7)), Call [Num 7, Num 0] (Boolean False),
       Advance (Yield (Num 8)), Call [Num 8, Num 1] (Boolean True)], ()))"
    by (simp add: new_Lazy_def numeral_2_eq_2 map_next_logged map_draft_next_logged
        filter_next.simps filter_draft_next.simps traced_def logged_def naturals_next_def
        pure_def isEven_def)
  have h3: "filter_draft (Fun (logged (pure isEven))) (observed (new_Lazy 7 naturals_next (Some True) :: (int, unit) Lazy)) =
     Inr (new_Lazy (Suspended (0, 7)) (filter_draft_next (logged (pure isEven)) (traced naturals_next)) None
       :: ((nat \<times> int) gen, event list \<times> unit) Lazy)"
    by (simp add: map_lazy_def filter_lazy_def map_draft_def filter_draft_def observed_def new_Lazy_def)
  have d3: "draw (advance (new_Lazy (Suspended (0, 7)) (filter_draft_next (logged (pure isEven)) (traced naturals_next)) None
       :: ((nat \<times> int) gen, event list \<times> unit) Lazy)) 1
     (start (new_Lazy (Suspended (0, 7)) (filter_draft_next (logged (pure isEven)) (traced naturals_next)) None
       :: ((nat \<times> int) gen, event list \<times> unit) Lazy)) ([], ()) =
     Some ([Num 8],
      ([Advance (Yield (Num 7)), Call [Num 7, Num 0] (Boolean False),
       Advance (Yield (Num 8)), Call [Num 8, Num 1] (Boolean True)], ()))"
    by (simp add: new_Lazy_def numeral_2_eq_2 map_next_logged map_draft_next_logged
        filter_next.simps filter_draft_next.simps traced_def logged_def naturals_next_def
        pure_def isEven_def)
  from map_filter_callback_arguments
    [of "pure isEven" "new_Lazy 7 naturals_next (Some True) :: (int, unit) Lazy" _ 2 "()" _ _ "()"
        "pure isEven" "new_Lazy 7 naturals_next (Some True) :: (int, unit) Lazy" _ 1 "()" _ _ "()"
        "pure isEven" "new_Lazy 7 naturals_next (Some True) :: (int, unit) Lazy" _ 2 "()" _ _ "()"
        "pure isEven" "new_Lazy 7 naturals_next (Some True) :: (int, unit) Lazy" _ 1 "()" _ _ "()"]
    h0 d0 h1 d1 h2 d2 h3 d3
  show ?thesis
    by blast
qed

end
